theory Spec2Isabelle
  imports Main "HOL-Library.Word"
begin

unbundle bit_operations_syntax

section \<open>Data model of EncryptedSurvey.sol\<close>

type_synonym address = nat

text \<open>A failed \<open>require\<close> carries its message; an arithmetic overflow of checked
  Solidity 0.8 arithmetic is a panic with its code.\<close>

datatype error = Revert string | Panic nat

datatype QuestionType = SingleChoice | MultipleChoice | Rating

subsection \<open>The encrypted-integer library\<close>

text \<open>
  Modelled from the spec: the external FHE library (\<open>@fhevm/solidity\<close>: \<open>FHE.asEuint32\<close>,
  \<open>FHE.fromExternal\<close>, \<open>FHE.eq\<close>, \<open>FHE.gt\<close>, \<open>FHE.and\<close>, \<open>FHE.select\<close>, \<open>FHE.add\<close>,
  \<open>FHE.allow\<close>, \<open>FHE.allowThis\<close>) is not part of the repository. The spec describes it as
  opaque encrypted 32-bit integer handles, every operation producing a fresh handle that
  carries no grants, with an access-control list recording per handle the addresses
  allowed to decrypt; it suggests a plaintext-shadowing mock that tracks the real integer
  alongside the opaque handle. That mock is what follows: a ciphertext is a handle
  together with its shadow plaintext, handle 0 is the uninitialised storage value
  (conceptually an encrypted zero), and the library state counts the handles allocated
  so far and logs every grant in the order it was issued.
\<close>

record euint32 =
  handle :: nat
  plain :: "32 word"

record ebool =
  bhandle :: nat
  bplain :: bool

text \<open>An external ciphertext is represented by the plaintext it encrypts; the input proof
  by the outcome of its verification.\<close>

type_synonym externalEuint32 = "32 word"

datatype inputProof = ValidProof | InvalidProof

record fhevm =
  allocated :: nat
  acl :: "(nat \<times> address) list"

definition uninitialized :: euint32 where
  "uninitialized = \<lparr>handle = 0, plain = 0\<rparr>"

definition FHE_asEuint32 :: "32 word \<Rightarrow> fhevm \<Rightarrow> euint32 \<times> fhevm" where
  "FHE_asEuint32 v f =
     (\<lparr>handle = Suc (allocated f), plain = v\<rparr>, f\<lparr>allocated := Suc (allocated f)\<rparr>)"

definition FHE_fromExternal ::
  "externalEuint32 \<Rightarrow> inputProof \<Rightarrow> fhevm \<Rightarrow> error + (euint32 \<times> fhevm)" where
  "FHE_fromExternal x p f =
     (case p of
        InvalidProof \<Rightarrow> Inl (Revert ''Invalid input proof'')
      | ValidProof \<Rightarrow>
          Inr (\<lparr>handle = Suc (allocated f), plain = x\<rparr>, f\<lparr>allocated := Suc (allocated f)\<rparr>))"

definition FHE_eq :: "euint32 \<Rightarrow> euint32 \<Rightarrow> fhevm \<Rightarrow> ebool \<times> fhevm" where
  "FHE_eq a b f =
     (\<lparr>bhandle = Suc (allocated f), bplain = (plain a = plain b)\<rparr>,
      f\<lparr>allocated := Suc (allocated f)\<rparr>)"

definition FHE_gt :: "euint32 \<Rightarrow> euint32 \<Rightarrow> fhevm \<Rightarrow> ebool \<times> fhevm" where
  "FHE_gt a b f =
     (\<lparr>bhandle = Suc (allocated f), bplain = (plain b < plain a)\<rparr>,
      f\<lparr>allocated := Suc (allocated f)\<rparr>)"

definition FHE_and :: "euint32 \<Rightarrow> euint32 \<Rightarrow> fhevm \<Rightarrow> euint32 \<times> fhevm" where
  "FHE_and a b f =
     (\<lparr>handle = Suc (allocated f), plain = plain a AND plain b\<rparr>,
      f\<lparr>allocated := Suc (allocated f)\<rparr>)"

definition FHE_select :: "ebool \<Rightarrow> euint32 \<Rightarrow> euint32 \<Rightarrow> fhevm \<Rightarrow> euint32 \<times> fhevm" where
  "FHE_select c a b f =
     (\<lparr>handle = Suc (allocated f), plain = (if bplain c then plain a else plain b)\<rparr>,
      f\<lparr>allocated := Suc (allocated f)\<rparr>)"

definition FHE_add :: "euint32 \<Rightarrow> euint32 \<Rightarrow> fhevm \<Rightarrow> euint32 \<times> fhevm" where
  "FHE_add a b f =
     (\<lparr>handle = Suc (allocated f), plain = plain a + plain b\<rparr>,
      f\<lparr>allocated := Suc (allocated f)\<rparr>)"

definition FHE_allow :: "euint32 \<Rightarrow> address \<Rightarrow> fhevm \<Rightarrow> fhevm" where
  "FHE_allow c a f = f\<lparr>acl := acl f @ [(handle c, a)]\<rparr>"

definition FHE_allowThis :: "address \<Rightarrow> euint32 \<Rightarrow> fhevm \<Rightarrow> fhevm" where
  "FHE_allowThis self c f = FHE_allow c self f"

definition isAllowed :: "fhevm \<Rightarrow> nat \<Rightarrow> address \<Rightarrow> bool" where
  "isAllowed f h a = ((h, a) \<in> set (acl f))"

subsection \<open>Storage structs\<close>

record Question =
  text_q :: string
  qType :: QuestionType
  optionCount :: nat
  options :: "string list"

record Survey =
  creator :: address
  title :: string
  category :: string
  tags :: "string list"
  createdAt :: nat
  startTime :: nat
  endTime :: nat
  exists_s :: bool
  isActive :: bool
  questionCount :: nat
  questions :: "nat \<Rightarrow> Question"
  optionVotes :: "nat \<Rightarrow> euint32"
  aggregatedCounts :: "nat \<Rightarrow> nat \<Rightarrow> euint32"
  totalResponses :: euint32

record Response =
  encryptedAnswers :: "nat \<Rightarrow> euint32"
  exists_r :: bool
  submittedAt :: nat

record Permission =
  canView :: bool
  canExport :: bool
  canManage :: bool
  exists_p :: bool

datatype event =
    SurveyCreated nat address string string nat
  | ResponseSubmitted nat address
  | PermissionGranted nat address address
  | PermissionRevoked nat address address
  | SurveyStatusChanged nat bool

record contract =
  surveys :: "nat \<Rightarrow> Survey"
  responses :: "nat \<Rightarrow> address \<Rightarrow> Response"
  permissions :: "nat \<Rightarrow> address \<Rightarrow> Permission"
  surveyCounter :: nat
  fhe :: fhevm
  events :: "event list"

text \<open>Storage before the first transaction: every slot holds its zero value.\<close>

definition emptyQuestion :: Question where
  "emptyQuestion = \<lparr>text_q = [], qType = SingleChoice, optionCount = 0, options = []\<rparr>"

definition emptySurvey :: Survey where
  "emptySurvey =
     \<lparr>creator = 0, title = [], category = [], tags = [], createdAt = 0, startTime = 0,
      endTime = 0, exists_s = False, isActive = False, questionCount = 0,
      questions = (\<lambda>_. emptyQuestion), optionVotes = (\<lambda>_. uninitialized),
      aggregatedCounts = (\<lambda>_ _. uninitialized), totalResponses = uninitialized\<rparr>"

definition emptyResponse :: Response where
  "emptyResponse =
     \<lparr>encryptedAnswers = (\<lambda>_. uninitialized), exists_r = False, submittedAt = 0\<rparr>"

definition emptyPermission :: Permission where
  "emptyPermission =
     \<lparr>canView = False, canExport = False, canManage = False, exists_p = False\<rparr>"

definition deployed :: contract where
  "deployed =
     \<lparr>surveys = (\<lambda>_. emptySurvey), responses = (\<lambda>_ _. emptyResponse),
      permissions = (\<lambda>_ _. emptyPermission), surveyCounter = 0,
      fhe = \<lparr>allocated = 0, acl = []\<rparr>, events = []\<rparr>"

section \<open>createSurvey\<close>

text \<open>The loop of lines 141-151, over the question indices in increasing order.\<close>

fun initQuestions ::
  "string list \<Rightarrow> QuestionType list \<Rightarrow> string list list \<Rightarrow> nat list \<Rightarrow>
   (nat \<Rightarrow> Question) \<Rightarrow> error + (nat \<Rightarrow> Question)" where
  "initQuestions questionTexts questionTypes questionOptions [] qs = Inr qs"
| "initQuestions questionTexts questionTypes questionOptions (i # is) qs =
     (if questionTexts ! i = [] then Inl (Revert ''Question text cannot be empty'')
      else if questionOptions ! i = [] then
        Inl (Revert ''Question must have at least one option'')
      else initQuestions questionTexts questionTypes questionOptions is
             (qs(i := \<lparr>text_q = questionTexts ! i, qType = questionTypes ! i,
                       optionCount = length (questionOptions ! i),
                       options = questionOptions ! i\<rparr>)))"

definition createSurvey ::
  "address \<Rightarrow> address \<Rightarrow> nat \<Rightarrow> contract \<Rightarrow> string \<Rightarrow> string \<Rightarrow> string list \<Rightarrow> nat \<Rightarrow> nat \<Rightarrow>
   string list \<Rightarrow> QuestionType list \<Rightarrow> string list list \<Rightarrow> error + (nat \<times> contract)" where
  "createSurvey self msg_sender block_timestamp st title' category' tags' startTime' endTime'
       questionTexts questionTypes questionOptions =
     (if title' = [] then Inl (Revert ''Title cannot be empty'')
      else if \<not> startTime' < endTime' then Inl (Revert ''Invalid time range'')
      else if \<not> (0 < length questionTexts \<and> length questionTexts \<le> 20) then
        Inl (Revert ''Invalid question count'')
      else if length questionTexts \<noteq> length questionTypes then
        Inl (Revert ''Question texts and types length mismatch'')
      else if length questionTexts \<noteq> length questionOptions then
        Inl (Revert ''Question texts and options length mismatch'')
      else if surveyCounter st = 2 ^ 256 - 1 then Inl (Panic 17)
      else
        let surveyId = surveyCounter st;
            survey = surveys st surveyId
        in case initQuestions questionTexts questionTypes questionOptions
                  [0..<length questionTexts] (questions survey) of
             Inl e \<Rightarrow> Inl e
           | Inr qs \<Rightarrow>
               (case FHE_asEuint32 0 (fhe st) of
                  (zero, f1) \<Rightarrow>
                    let survey' = survey
                          \<lparr>creator := msg_sender, title := title', category := category',
                           tags := tags', createdAt := block_timestamp,
                           startTime := startTime', endTime := endTime', exists_s := True,
                           isActive := True, questionCount := length questionTexts,
                           questions := qs, totalResponses := zero\<rparr>;
                        f2 = FHE_allowThis self (totalResponses survey') f1;
                        creatorPerm = (permissions st surveyId msg_sender)
                          \<lparr>canView := True, canExport := True, canManage := True,
                           exists_p := True\<rparr>;
                        f3 = FHE_allow (totalResponses survey') msg_sender f2
                    in Inr (surveyId,
                         st\<lparr>surveys := (surveys st)(surveyId := survey'),
                            permissions := (permissions st)
                              (surveyId := (permissions st surveyId)(msg_sender := creatorPerm)),
                            surveyCounter := Suc (surveyCounter st),
                            fhe := f3,
                            events := events st @
                              [SurveyCreated surveyId msg_sender title' category'
                                 (length questionTexts)]\<rparr>)))"

section \<open>submitResponse\<close>

text \<open>The bodies of the three inner loops (lines 208-220, 223-236 and 239-249). Each acts
  on the survey in storage and on the library state.\<close>

definition singleChoiceStep ::
  "address \<Rightarrow> euint32 \<Rightarrow> nat \<Rightarrow> nat \<Rightarrow> Survey \<times> fhevm \<Rightarrow> Survey \<times> fhevm" where
  "singleChoiceStep self encryptedAnswer q o' = (\<lambda>(survey, f).
     case FHE_asEuint32 (of_nat o') f of (eo, f1) \<Rightarrow>
     case FHE_eq encryptedAnswer eo f1 of (isO, f2) \<Rightarrow>
     case FHE_asEuint32 1 f2 of (one, f3) \<Rightarrow>
     case FHE_asEuint32 0 f3 of (zero, f4) \<Rightarrow>
     case FHE_select isO one zero f4 of (inc, f5) \<Rightarrow>
     case FHE_add (aggregatedCounts survey q o') inc f5 of (newCount, f6) \<Rightarrow>
       let survey' = survey\<lparr>aggregatedCounts :=
                       (aggregatedCounts survey)(q := (aggregatedCounts survey q)(o' := newCount))\<rparr>;
           f7 = FHE_allowThis self (aggregatedCounts survey' q o') f6;
           f8 = FHE_allow (aggregatedCounts survey' q o') (creator survey') f7
       in (survey', f8))"

definition multipleChoiceStep ::
  "address \<Rightarrow> euint32 \<Rightarrow> nat \<Rightarrow> nat \<Rightarrow> Survey \<times> fhevm \<Rightarrow> Survey \<times> fhevm" where
  "multipleChoiceStep self encryptedAnswer q o' = (\<lambda>(survey, f).
     case FHE_asEuint32 (push_bit (unat (of_nat o' :: 32 word)) 1) f of (bitO, f1) \<Rightarrow>
     case FHE_and encryptedAnswer bitO f1 of (masked, f2) \<Rightarrow>
     case FHE_asEuint32 0 f2 of (zero0, f3) \<Rightarrow>
     case FHE_gt masked zero0 f3 of (isSet, f4) \<Rightarrow>
     case FHE_asEuint32 1 f4 of (one, f5) \<Rightarrow>
     case FHE_asEuint32 0 f5 of (zero, f6) \<Rightarrow>
     case FHE_select isSet one zero f6 of (inc, f7) \<Rightarrow>
     case FHE_add (aggregatedCounts survey q o') inc f7 of (newCount, f8) \<Rightarrow>
       let survey' = survey\<lparr>aggregatedCounts :=
                       (aggregatedCounts survey)(q := (aggregatedCounts survey q)(o' := newCount))\<rparr>;
           f9 = FHE_allowThis self (aggregatedCounts survey' q o') f8;
           f10 = FHE_allow (aggregatedCounts survey' q o') (creator survey') f9
       in (survey', f10))"

definition ratingStep ::
  "address \<Rightarrow> euint32 \<Rightarrow> nat \<Rightarrow> nat \<Rightarrow> Survey \<times> fhevm \<Rightarrow> Survey \<times> fhevm" where
  "ratingStep self encryptedAnswer q r = (\<lambda>(survey, f).
     case FHE_asEuint32 (of_nat r) f of (er, f1) \<Rightarrow>
     case FHE_eq encryptedAnswer er f1 of (isR, f2) \<Rightarrow>
     case FHE_asEuint32 1 f2 of (one, f3) \<Rightarrow>
     case FHE_asEuint32 0 f3 of (zero, f4) \<Rightarrow>
     case FHE_select isR one zero f4 of (inc, f5) \<Rightarrow>
       let bucket = r - 1
       in case FHE_add (aggregatedCounts survey q bucket) inc f5 of (newCount, f6) \<Rightarrow>
       let survey' = survey\<lparr>aggregatedCounts :=
                       (aggregatedCounts survey)(q := (aggregatedCounts survey q)(bucket := newCount))\<rparr>;
           f7 = FHE_allowThis self (aggregatedCounts survey' q bucket) f6;
           f8 = FHE_allow (aggregatedCounts survey' q bucket) (creator survey') f7
       in (survey', f8))"

text \<open>The dispatch on the question type (lines 206-250): the loops run over the option
  indices \<open>0..<optionCount\<close>, or over the ratings \<open>1..5\<close>.\<close>

definition aggregateAnswer ::
  "address \<Rightarrow> euint32 \<Rightarrow> nat \<Rightarrow> Survey \<times> fhevm \<Rightarrow> Survey \<times> fhevm" where
  "aggregateAnswer self encryptedAnswer q = (\<lambda>(survey, f).
     let question = questions survey q
     in case qType question of
          SingleChoice \<Rightarrow>
            fold (singleChoiceStep self encryptedAnswer q) [0..<optionCount question] (survey, f)
        | MultipleChoice \<Rightarrow>
            fold (multipleChoiceStep self encryptedAnswer q) [0..<optionCount question] (survey, f)
        | Rating \<Rightarrow>
            fold (ratingStep self encryptedAnswer q) [1..<6] (survey, f))"

text \<open>The loop over the questions (lines 199-251); an input proof that does not verify
  reverts the whole call.\<close>

fun processAnswers ::
  "address \<Rightarrow> externalEuint32 list \<Rightarrow> inputProof list \<Rightarrow> nat list \<Rightarrow>
   Survey \<times> Response \<times> fhevm \<Rightarrow> error + (Survey \<times> Response \<times> fhevm)" where
  "processAnswers self extAnswers answerProofs [] s = Inr s"
| "processAnswers self extAnswers answerProofs (q # qs) (survey, response, f) =
     (case FHE_fromExternal (extAnswers ! q) (answerProofs ! q) f of
        Inl e \<Rightarrow> Inl e
      | Inr (encryptedAnswer, f1) \<Rightarrow>
          let response' = response\<lparr>encryptedAnswers :=
                            (encryptedAnswers response)(q := encryptedAnswer)\<rparr>;
              f2 = FHE_allowThis self encryptedAnswer f1
          in case aggregateAnswer self encryptedAnswer q (survey, f2) of
               (survey', f3) \<Rightarrow>
                 processAnswers self extAnswers answerProofs qs (survey', response', f3))"

definition submitResponse ::
  "address \<Rightarrow> address \<Rightarrow> nat \<Rightarrow> contract \<Rightarrow> nat \<Rightarrow> externalEuint32 list \<Rightarrow> inputProof list \<Rightarrow>
   error + contract" where
  "submitResponse self msg_sender block_timestamp st surveyId extAnswers answerProofs =
     (let survey = surveys st surveyId in
      if \<not> exists_s survey then Inl (Revert ''Survey does not exist'')
      else if \<not> isActive survey then Inl (Revert ''Survey is not active'')
      else if \<not> (startTime survey \<le> block_timestamp \<and> block_timestamp \<le> endTime survey) then
        Inl (Revert ''Survey period invalid'')
      else if length extAnswers \<noteq> questionCount survey then
        Inl (Revert ''Answers length mismatch'')
      else if length answerProofs \<noteq> questionCount survey then
        Inl (Revert ''Proofs length mismatch'')
      else if exists_r (responses st surveyId msg_sender) then
        Inl (Revert ''Response already submitted'')
      else
        let response = (responses st surveyId msg_sender)
                         \<lparr>exists_r := True, submittedAt := block_timestamp\<rparr>
        in case processAnswers self extAnswers answerProofs [0..<questionCount survey]
                  (survey, response, fhe st) of
             Inl e \<Rightarrow> Inl e
           | Inr (survey1, response1, f1) \<Rightarrow>
               (case FHE_asEuint32 1 f1 of (one, f2) \<Rightarrow>
                case FHE_add (totalResponses survey1) one f2 of (newTotal, f3) \<Rightarrow>
                  let survey2 = survey1\<lparr>totalResponses := newTotal\<rparr>;
                      f4 = FHE_allowThis self (totalResponses survey2) f3;
                      f5 = FHE_allow (totalResponses survey2) (creator survey2) f4
                  in Inr (st\<lparr>surveys := (surveys st)(surveyId := survey2),
                             responses := (responses st)
                               (surveyId := (responses st surveyId)(msg_sender := response1)),
                             fhe := f5,
                             events := events st @ [ResponseSubmitted surveyId msg_sender]\<rparr>)))"

section \<open>Permissions and status\<close>

definition grantPermission ::
  "address \<Rightarrow> contract \<Rightarrow> nat \<Rightarrow> address \<Rightarrow> bool \<Rightarrow> bool \<Rightarrow> bool \<Rightarrow> error + contract" where
  "grantPermission msg_sender st surveyId viewer canView' canExport' canManage' =
     (let survey = surveys st surveyId in
      if \<not> exists_s survey then Inl (Revert ''Survey does not exist'')
      else if msg_sender \<noteq> creator survey then
        Inl (Revert ''Only creator can grant permissions'')
      else
        let perm = (permissions st surveyId viewer)
                     \<lparr>canView := canView', canExport := canExport', canManage := canManage',
                      exists_p := True\<rparr>
        in Inr (st\<lparr>permissions := (permissions st)
                      (surveyId := (permissions st surveyId)(viewer := perm)),
                   fhe := FHE_allow (totalResponses survey) viewer (fhe st),
                   events := events st @ [PermissionGranted surveyId viewer msg_sender]\<rparr>))"

definition revokePermission :: "address \<Rightarrow> contract \<Rightarrow> nat \<Rightarrow> address \<Rightarrow> error + contract" where
  "revokePermission msg_sender st surveyId viewer =
     (let survey = surveys st surveyId in
      if \<not> exists_s survey then Inl (Revert ''Survey does not exist'')
      else if msg_sender \<noteq> creator survey then
        Inl (Revert ''Only creator can revoke permissions'')
      else
        let perm = (permissions st surveyId viewer)
                     \<lparr>canView := False, canExport := False, canManage := False\<rparr>
        in Inr (st\<lparr>permissions := (permissions st)
                      (surveyId := (permissions st surveyId)(viewer := perm)),
                   events := events st @ [PermissionRevoked surveyId viewer msg_sender]\<rparr>))"

definition setSurveyStatus :: "address \<Rightarrow> contract \<Rightarrow> nat \<Rightarrow> bool \<Rightarrow> error + contract" where
  "setSurveyStatus msg_sender st surveyId isActive' =
     (let survey = surveys st surveyId in
      if \<not> exists_s survey then Inl (Revert ''Survey does not exist'')
      else if \<not> (msg_sender = creator survey \<or>
                 (exists_p (permissions st surveyId msg_sender) \<and>
                  canManage (permissions st surveyId msg_sender))) then
        Inl (Revert ''Not authorized'')
      else Inr (st\<lparr>surveys := (surveys st)(surveyId := survey\<lparr>isActive := isActive'\<rparr>),
                   events := events st @ [SurveyStatusChanged surveyId isActive']\<rparr>))"

section \<open>Read accessors\<close>

definition getSurveyInfo ::
  "contract \<Rightarrow> nat \<Rightarrow>
   error + (address \<times> string \<times> string \<times> nat \<times> nat \<times> nat \<times> nat \<times> bool \<times> bool)" where
  "getSurveyInfo st surveyId =
     (let survey = surveys st surveyId in
      Inr (creator survey, title survey, category survey, createdAt survey, startTime survey,
           endTime survey, questionCount survey, exists_s survey, isActive survey))"

definition getQuestionInfo ::
  "contract \<Rightarrow> nat \<Rightarrow> nat \<Rightarrow> error + (string \<times> QuestionType \<times> nat \<times> string list)" where
  "getQuestionInfo st surveyId questionIndex =
     (let survey = surveys st surveyId in
      if \<not> exists_s survey then Inl (Revert ''Survey does not exist'')
      else if \<not> questionIndex < questionCount survey then
        Inl (Revert ''Invalid question index'')
      else
        let question = questions survey questionIndex
        in Inr (text_q question, qType question, optionCount question, options question))"

definition getTotalResponses :: "contract \<Rightarrow> nat \<Rightarrow> error + euint32" where
  "getTotalResponses st surveyId =
     (let survey = surveys st surveyId in
      if \<not> exists_s survey then Inl (Revert ''Survey does not exist'')
      else Inr (totalResponses survey))"

definition getResponse :: "contract \<Rightarrow> nat \<Rightarrow> address \<Rightarrow> nat \<Rightarrow> error + euint32" where
  "getResponse st surveyId userAddress questionIndex =
     (let response = responses st surveyId userAddress in
      if \<not> exists_r response then Inl (Revert ''Response does not exist'')
      else if \<not> questionIndex < questionCount (surveys st surveyId) then
        Inl (Revert ''Invalid question index'')
      else Inr (encryptedAnswers response questionIndex))"

definition getQuestionOptionCounts :: "contract \<Rightarrow> nat \<Rightarrow> nat \<Rightarrow> error + euint32 list" where
  "getQuestionOptionCounts st surveyId questionIndex =
     (let survey = surveys st surveyId in
      if \<not> exists_s survey then Inl (Revert ''Survey does not exist'')
      else if \<not> questionIndex < questionCount survey then
        Inl (Revert ''Invalid question index'')
      else
        let question = questions survey questionIndex;
            len = (if qType question = Rating then 5 else optionCount question)
        in Inr (map (\<lambda>o'. aggregatedCounts survey questionIndex o') [0..<len]))"

definition hasResponded :: "contract \<Rightarrow> nat \<Rightarrow> address \<Rightarrow> bool" where
  "hasResponded st surveyId userAddress = exists_r (responses st surveyId userAddress)"

definition getPermission :: "contract \<Rightarrow> nat \<Rightarrow> address \<Rightarrow> bool \<times> bool \<times> bool" where
  "getPermission st surveyId userAddress =
     (let perm = permissions st surveyId userAddress
      in (canView perm, canExport perm, canManage perm))"

definition getSurveyTags :: "contract \<Rightarrow> nat \<Rightarrow> error + string list" where
  "getSurveyTags st surveyId =
     (let survey = surveys st surveyId in
      if \<not> exists_s survey then Inl (Revert ''Survey does not exist'')
      else Inr (tags survey))"

section \<open>Authorising decryption\<close>

definition authorizeMyDecryption :: "address \<Rightarrow> contract \<Rightarrow> nat \<Rightarrow> error + contract" where
  "authorizeMyDecryption msg_sender st surveyId =
     (let survey = surveys st surveyId in
      if \<not> exists_s survey then Inl (Revert ''Survey does not exist'')
      else if msg_sender \<noteq> creator survey \<and>
              \<not> (exists_p (permissions st surveyId msg_sender) \<and>
                 canView (permissions st surveyId msg_sender)) then
        Inl (Revert ''Not authorized to view'')
      else Inr (st\<lparr>fhe := FHE_allow (totalResponses survey) msg_sender (fhe st)\<rparr>))"

text \<open>The nested loops of lines 493-499.\<close>

definition allowQuestionCounts :: "address \<Rightarrow> Survey \<Rightarrow> nat \<Rightarrow> fhevm \<Rightarrow> fhevm" where
  "allowQuestionCounts msg_sender survey q f =
     (let question = questions survey q;
          len = (if qType question = Rating then 5 else optionCount question)
      in fold (\<lambda>o'. FHE_allow (aggregatedCounts survey q o') msg_sender) [0..<len] f)"

definition authorizeAllResultsDecryption :: "address \<Rightarrow> contract \<Rightarrow> nat \<Rightarrow> error + contract" where
  "authorizeAllResultsDecryption msg_sender st surveyId =
     (let survey = surveys st surveyId in
      if \<not> exists_s survey then Inl (Revert ''Survey does not exist'')
      else if msg_sender \<noteq> creator survey \<and>
              \<not> (exists_p (permissions st surveyId msg_sender) \<and>
                 canView (permissions st surveyId msg_sender)) then
        Inl (Revert ''Not authorized to view'')
      else
        let f1 = FHE_allow (totalResponses survey) msg_sender (fhe st);
            f2 = fold (allowQuestionCounts msg_sender survey) [0..<questionCount survey] f1
        in Inr (st\<lparr>fhe := f2\<rparr>))"

section \<open>Transactions\<close>

text \<open>A transaction names the entry point and its arguments; it runs for a sender at a
  block timestamp. A call that fails is rolled back: the state stays as it was.\<close>

datatype call =
    CreateSurvey string string "string list" nat nat "string list" "QuestionType list"
      "string list list"
  | SubmitResponse nat "externalEuint32 list" "inputProof list"
  | GrantPermission nat address bool bool bool
  | RevokePermission nat address
  | SetSurveyStatus nat bool
  | AuthorizeMyDecryption nat
  | AuthorizeAllResultsDecryption nat

record transaction =
  tx_sender :: address
  tx_timestamp :: nat
  tx_call :: call

definition exec :: "address \<Rightarrow> contract \<Rightarrow> transaction \<Rightarrow> error + contract" where
  "exec self st t =
     (case tx_call t of
        CreateSurvey ti ca ta s e qt qy qo \<Rightarrow>
          (case createSurvey self (tx_sender t) (tx_timestamp t) st ti ca ta s e qt qy qo of
             Inl err \<Rightarrow> Inl err
           | Inr (surveyId, st') \<Rightarrow> Inr st')
      | SubmitResponse surveyId answers proofs \<Rightarrow>
          submitResponse self (tx_sender t) (tx_timestamp t) st surveyId answers proofs
      | GrantPermission surveyId viewer v e m \<Rightarrow>
          grantPermission (tx_sender t) st surveyId viewer v e m
      | RevokePermission surveyId viewer \<Rightarrow> revokePermission (tx_sender t) st surveyId viewer
      | SetSurveyStatus surveyId a \<Rightarrow> setSurveyStatus (tx_sender t) st surveyId a
      | AuthorizeMyDecryption surveyId \<Rightarrow> authorizeMyDecryption (tx_sender t) st surveyId
      | AuthorizeAllResultsDecryption surveyId \<Rightarrow>
          authorizeAllResultsDecryption (tx_sender t) st surveyId)"

definition step :: "address \<Rightarrow> contract \<Rightarrow> transaction \<Rightarrow> contract" where
  "step self st t = (case exec self st t of Inl err \<Rightarrow> st | Inr st' \<Rightarrow> st')"

definition run :: "address \<Rightarrow> contract \<Rightarrow> transaction list \<Rightarrow> contract" where
  "run self st ts = foldl (step self) st ts"

section \<open>Notions used in the properties\<close>

text \<open>The handles a dashboard reads for a survey: the handle returned by
  \<open>getTotalResponses\<close>, then those returned by \<open>getQuestionOptionCounts\<close> for each
  question in turn.\<close>

definition result_handles :: "contract \<Rightarrow> nat \<Rightarrow> nat list" where
  "result_handles st surveyId =
     (case getTotalResponses st surveyId of Inl e \<Rightarrow> [] | Inr c \<Rightarrow> [handle c]) @
     concat (map (\<lambda>q. case getQuestionOptionCounts st surveyId q of
                         Inl e \<Rightarrow> [] | Inr cs \<Rightarrow> map handle cs)
               [0..<questionCount (surveys st surveyId)])"

text \<open>The grants logged between two states of the contract.\<close>

definition granted_by :: "contract \<Rightarrow> contract \<Rightarrow> (nat \<times> address) list" where
  "granted_by st st' = drop (length (acl (fhe st))) (acl (fhe st'))"

text \<open>A small deployment used to exercise the properties: the contract lives at address 99,
  address 7 creates a survey with one question of each type, address 8 answers it.\<close>

definition create_tx :: transaction where
  "create_tx =
     \<lparr>tx_sender = 7, tx_timestamp = 50,
      tx_call = CreateSurvey ''T'' ''C'' [''x''] 100 200 [''Q1'', ''Q2'', ''Q3'']
                  [SingleChoice, MultipleChoice, Rating]
                  [[''A'', ''B''], [''A'', ''B'', ''C''], [''r'']]\<rparr>"

definition submit_tx :: transaction where
  "submit_tx =
     \<lparr>tx_sender = 8, tx_timestamp = 150,
      tx_call = SubmitResponse 0 [1, 5, 3] [ValidProof, ValidProof, ValidProof]\<rparr>"

definition created :: contract where
  "created = step 99 deployed create_tx"

definition answered :: contract where
  "answered = step 99 created submit_tx"

text \<open>What the three inner loop bodies have in common: bucket \<open>b\<close> of question \<open>q\<close> is
  replaced by a ciphertext with the handle allocated last (the \<open>k\<close>-th of the body) whose
  plaintext is the old one plus \<open>v\<close>, and the new handle is granted to the contract and to
  the creator.\<close>

definition bump ::
  "address \<Rightarrow> nat \<Rightarrow> nat \<Rightarrow> nat \<Rightarrow> 32 word \<Rightarrow> Survey \<times> fhevm \<Rightarrow> Survey \<times> fhevm" where
  "bump self k q b v = (\<lambda>(survey, f).
     (survey\<lparr>aggregatedCounts := (aggregatedCounts survey)
        (q := (aggregatedCounts survey q)
           (b := \<lparr>handle = allocated f + k,
                  plain = plain (aggregatedCounts survey q b) + v\<rparr>))\<rparr>,
      f\<lparr>allocated := allocated f + k,
        acl := acl f @ [(allocated f + k, self), (allocated f + k, creator survey)]\<rparr>))"

text \<open>The increment of bucket \<open>j\<close> that the spec prescribes for an answer with plaintext \<open>a\<close>,
  by question type: the indicator of \<open>answer == j\<close> for the option indices of a SingleChoice
  question, the indicator of \<open>answer AND (1 << j) > 0\<close> for those of a MultipleChoice
  question, and the indicator of \<open>answer == j + 1\<close> for the five buckets of a Rating
  question.\<close>

definition bucket_inc :: "Question \<Rightarrow> 32 word \<Rightarrow> nat \<Rightarrow> 32 word" where
  "bucket_inc question a j =
     (case qType question of
        SingleChoice \<Rightarrow> (if j < optionCount question \<and> a = of_nat j then 1 else 0)
      | MultipleChoice \<Rightarrow>
          (if j < optionCount question \<and> 0 < a AND push_bit (unat (of_nat j :: 32 word)) 1
           then 1 else 0)
      | Rating \<Rightarrow> (if j < 5 \<and> a = of_nat (j + 1) then 1 else 0))"

definition answer_inc :: "Survey \<Rightarrow> nat \<Rightarrow> 32 word \<Rightarrow> nat \<Rightarrow> 32 word" where
  "answer_inc survey q a j =
     (if q < questionCount survey then bucket_inc (questions survey q) a j else 0)"

text \<open>The survey metadata fixed at creation.\<close>

definition metadata ::
  "Survey \<Rightarrow>
   address \<times> string \<times> string \<times> string list \<times> nat \<times> nat \<times> nat \<times> nat \<times> (nat \<Rightarrow> Question)" where
  "metadata s = (creator s, title s, category s, tags s, createdAt s, startTime s, endTime s,
                 questionCount s, questions s)"

text \<open>Survey ids are handed out by the counter: every existing survey has an id below it.\<close>

definition registered :: "contract \<Rightarrow> bool" where
  "registered st \<longleftrightarrow> (\<forall>sid. exists_s (surveys st sid) \<longrightarrow> sid < surveyCounter st)"

text \<open>The answers of a \<open>submitResponse\<close> transaction addressed to survey \<open>sid\<close>, and the
  answers of the accepted submissions to \<open>sid\<close> along a sequence of transactions, oldest
  first.\<close>

definition answers_to :: "nat \<Rightarrow> transaction \<Rightarrow> externalEuint32 list list" where
  "answers_to sid t =
     (case tx_call t of
        SubmitResponse sid' xs ps \<Rightarrow> if sid' = sid then [xs] else []
      | _ \<Rightarrow> [])"

fun accepted :: "address \<Rightarrow> contract \<Rightarrow> transaction list \<Rightarrow> nat \<Rightarrow> externalEuint32 list list" where
  "accepted self st [] sid = []"
| "accepted self st (t # ts) sid =
     (case exec self st t of
        Inl e \<Rightarrow> accepted self st ts sid
      | Inr st' \<Rightarrow> answers_to sid t @ accepted self st' ts sid)"

text \<open>The number of buckets of a question, as \<open>getQuestionOptionCounts\<close> computes it.\<close>

definition bucketCount :: "Question \<Rightarrow> nat" where
  "bucketCount question = (if qType question = Rating then 5 else optionCount question)"

text \<open>How a survey and the library state evolve while answers are aggregated: handles are
  only allocated, grants are only added and only on handles allocated meanwhile, a bucket
  either keeps its ciphertext or receives one allocated meanwhile, and nothing but the
  buckets of the survey is written.\<close>

definition grows :: "Survey \<times> fhevm \<Rightarrow> Survey \<times> fhevm \<Rightarrow> bool" where
  "grows s s' \<longleftrightarrow>
     allocated (snd s) \<le> allocated (snd s') \<and>
     set (acl (snd s)) \<subseteq> set (acl (snd s')) \<and>
     (\<forall>h a. (h, a) \<in> set (acl (snd s')) \<longrightarrow>
        (h, a) \<in> set (acl (snd s)) \<or> (allocated (snd s) < h \<and> h \<le> allocated (snd s'))) \<and>
     (\<forall>q j. aggregatedCounts (fst s') q j = aggregatedCounts (fst s) q j \<or>
        (allocated (snd s) < handle (aggregatedCounts (fst s') q j) \<and>
         handle (aggregatedCounts (fst s') q j) \<le> allocated (snd s'))) \<and>
     (\<exists>A. fst s' = (fst s)\<lparr>aggregatedCounts := A\<rparr>)"

text \<open>The handles of the stored answers: those \<open>getResponse\<close> can return.\<close>

definition answer_handles :: "contract \<Rightarrow> nat set" where
  "answer_handles st =
     {handle (encryptedAnswers (responses st sid a) q) | sid a q.
        exists_r (responses st sid a) \<and> q < questionCount (surveys st sid)}"

text \<open>The invariant behind the confidentiality of stored answers: survey ids are fresh, a
  response belongs to an existing survey, every handle in storage or in the grant log has
  been allocated, no counter handle is an answer handle, and an answer handle is granted to
  the contract and to nobody else.\<close>

definition sealed :: "address \<Rightarrow> contract \<Rightarrow> bool" where
  "sealed self st \<longleftrightarrow>
     registered st \<and>
     (\<forall>sid a. exists_r (responses st sid a) \<longrightarrow> exists_s (surveys st sid)) \<and>
     (\<forall>h a. (h, a) \<in> set (acl (fhe st)) \<longrightarrow> h \<le> allocated (fhe st)) \<and>
     (\<forall>sid q j. handle (aggregatedCounts (surveys st sid) q j) \<le> allocated (fhe st) \<and>
        handle (aggregatedCounts (surveys st sid) q j) \<notin> answer_handles st) \<and>
     (\<forall>sid. handle (totalResponses (surveys st sid)) \<le> allocated (fhe st) \<and>
        handle (totalResponses (surveys st sid)) \<notin> answer_handles st) \<and>
     (\<forall>h \<in> answer_handles st.
        h \<le> allocated (fhe st) \<and> (h, self) \<in> set (acl (fhe st)) \<and>
        (\<forall>a. (h, a) \<in> set (acl (fhe st)) \<longrightarrow> a = self))"

text \<open>Storage slots of surveys that do not exist still hold their zero values.\<close>

definition blank :: "contract \<Rightarrow> bool" where
  "blank st \<longleftrightarrow> (\<forall>sid. \<not> exists_s (surveys st sid) \<longrightarrow> surveys st sid = emptySurvey)"

section \<open>Properties\<close>

subsection \<open>The example deployment\<close>

lemma created_survey:
  "exists_s (surveys created 0)" "creator (surveys created 0) = 7"
  "questionCount (surveys created 0) = 3" "isActive (surveys created 0)"
  "startTime (surveys created 0) = 100" "endTime (surveys created 0) = 200"
  "surveyCounter created = 1"
  by (simp_all add: created_def step_def exec_def create_tx_def createSurvey_def deployed_def
      FHE_asEuint32_def FHE_allow_def FHE_allowThis_def Let_def)

lemma created_questions:
  "qType (questions (surveys created 0) 0) = SingleChoice"
  "optionCount (questions (surveys created 0) 0) = 2"
  "qType (questions (surveys created 0) 1) = MultipleChoice"
  "optionCount (questions (surveys created 0) 1) = 3"
  "qType (questions (surveys created 0) 2) = Rating"
  "optionCount (questions (surveys created 0) 2) = 1"
  "qType (questions (surveys created 0) (Suc 0)) = MultipleChoice"
  "optionCount (questions (surveys created 0) (Suc 0)) = 3"
  "qType (questions (surveys created 0) (Suc (Suc 0))) = Rating"
  "optionCount (questions (surveys created 0) (Suc (Suc 0))) = 1"
  by (simp_all add: created_def step_def exec_def create_tx_def createSurvey_def deployed_def
      FHE_asEuint32_def FHE_allow_def FHE_allowThis_def Let_def)

subsection \<open>Read accessors\<close>

text \<open>
  C6 (as stated, refuted): \<open>getSurveyInfo\<close> has no existence check. Called with an id for
  which no survey exists it returns the zero-valued fields, with the existence flag false.
\<close>

theorem C6_getSurveyInfo_counterexample:
  "\<not> exists_s (surveys deployed 0) \<and>
   getSurveyInfo deployed 0 = Inr (0, [], [], 0, 0, 0, 0, False, False)"
  by (simp add: getSurveyInfo_def deployed_def emptySurvey_def)

subsection \<open>Permissions\<close>

text \<open>
  C8: for an existing survey with creator \<open>c\<close> and an address \<open>addr\<close> other than \<open>c\<close>,
  \<open>grantPermission(id, addr, true, false, false)\<close> by \<open>c\<close> followed by
  \<open>revokePermission(id, addr)\<close> both succeed; afterwards \<open>getPermission(id, addr)\<close> is
  (false, false, false), the existence flag of the permission record is still true, and
  \<open>authorizeMyDecryption(id)\<close> called by \<open>addr\<close> fails.
\<close>

theorem C8_grant_then_revoke:
  assumes "exists_s (surveys st surveyId)" and "creator (surveys st surveyId) = c"
    and "addr \<noteq> c"
  shows "\<exists>st1 st2. grantPermission c st surveyId addr True False False = Inr st1 \<and>
           revokePermission c st1 surveyId addr = Inr st2 \<and>
           getPermission st2 surveyId addr = (False, False, False) \<and>
           exists_p (permissions st2 surveyId addr) \<and>
           authorizeMyDecryption addr st2 surveyId = Inl (Revert ''Not authorized to view'')"
  using assms
  by (simp add: grantPermission_def revokePermission_def getPermission_def
      authorizeMyDecryption_def Let_def)

theorem C8_grant_then_revoke_witness:
  "\<exists>st1 st2. grantPermission 7 created 0 8 True False False = Inr st1 \<and>
     revokePermission 7 st1 0 8 = Inr st2 \<and>
     getPermission st2 0 8 = (False, False, False) \<and>
     exists_p (permissions st2 0 8) \<and>
     authorizeMyDecryption 8 st2 0 = Inl (Revert ''Not authorized to view'')"
  using C8_grant_then_revoke [of created 0 7 8] by (simp add: created_survey)

subsection \<open>Bulk authorisation\<close>

lemma fold_allow_acl:
  "acl (fold (\<lambda>x. FHE_allow (g x) a) xs f) = acl f @ map (\<lambda>x. (handle (g x), a)) xs"
  by (induction xs arbitrary: f) (simp_all add: FHE_allow_def)

lemma allowQuestionCounts_acl:
  "acl (allowQuestionCounts a survey q f) =
     acl f @ map (\<lambda>o'. (handle (aggregatedCounts survey q o'), a))
               [0..<(if qType (questions survey q) = Rating then 5
                     else optionCount (questions survey q))]"
  unfolding allowQuestionCounts_def Let_def by (rule fold_allow_acl)

lemma fold_allowQuestionCounts_acl:
  "acl (fold (allowQuestionCounts a survey) qs f) =
     acl f @ concat (map (\<lambda>q. map (\<lambda>o'. (handle (aggregatedCounts survey q o'), a))
               [0..<(if qType (questions survey q) = Rating then 5
                     else optionCount (questions survey q))]) qs)"
  by (induction qs arbitrary: f) (simp_all add: allowQuestionCounts_acl)

lemma result_handles_exists:
  assumes "exists_s (surveys st surveyId)"
  shows "result_handles st surveyId =
     handle (totalResponses (surveys st surveyId)) #
     concat (map (\<lambda>q. map (\<lambda>o'. handle (aggregatedCounts (surveys st surveyId) q o'))
               [0..<(if qType (questions (surveys st surveyId) q) = Rating then 5
                     else optionCount (questions (surveys st surveyId) q))])
             [0..<questionCount (surveys st surveyId)])"
proof -
  have "map (\<lambda>q. case getQuestionOptionCounts st surveyId q of
                    Inl e \<Rightarrow> [] | Inr cs \<Rightarrow> map handle cs)
          [0..<questionCount (surveys st surveyId)] =
        map (\<lambda>q. map (\<lambda>o'. handle (aggregatedCounts (surveys st surveyId) q o'))
               [0..<(if qType (questions (surveys st surveyId) q) = Rating then 5
                     else optionCount (questions (surveys st surveyId) q))])
          [0..<questionCount (surveys st surveyId)]"
    using assms by (intro map_cong) (simp_all add: getQuestionOptionCounts_def Let_def comp_def)
  then show ?thesis
    by (simp only: result_handles_def getTotalResponses_def Let_def assms not_True_eq_False
        if_False sum.case append_Cons append_Nil)
qed

text \<open>
  C7: when \<open>authorizeAllResultsDecryption(surveyId)\<close> succeeds, the grants it issues all go to
  the caller, and the handles they are issued on are exactly the handle that
  \<open>getTotalResponses\<close> returns together with the handles that \<open>getQuestionOptionCounts\<close>
  returns for every question (5 for a Rating question, \<open>optionCount\<close> otherwise); the call
  changes none of these handles.
\<close>

theorem C7_grants_cover_results:
  assumes "authorizeAllResultsDecryption msg_sender st surveyId = Inr st'"
  shows "acl (fhe st') = acl (fhe st) @ granted_by st st' \<and>
         granted_by st st' = map (\<lambda>h. (h, msg_sender)) (result_handles st surveyId) \<and>
         fst ` set (granted_by st st') = set (result_handles st surveyId) \<and>
         snd ` set (granted_by st st') = {msg_sender} \<and>
         getTotalResponses st' surveyId = getTotalResponses st surveyId \<and>
         (\<exists>c. getTotalResponses st surveyId = Inr c) \<and>
         (\<forall>q. getQuestionOptionCounts st' surveyId q = getQuestionOptionCounts st surveyId q) \<and>
         (\<forall>q < questionCount (surveys st surveyId).
            \<exists>cs. getQuestionOptionCounts st surveyId q = Inr cs \<and>
                 length cs = (if qType (questions (surveys st surveyId) q) = Rating then 5
                              else optionCount (questions (surveys st surveyId) q)))"
proof -
  let ?s = "surveys st surveyId"
  from assms have ex: "exists_s ?s"
    by (auto simp: authorizeAllResultsDecryption_def Let_def split: if_splits)
  from assms have st': "st' = st\<lparr>fhe := fold (allowQuestionCounts msg_sender ?s)
        [0..<questionCount ?s] (FHE_allow (totalResponses ?s) msg_sender (fhe st))\<rparr>"
    by (auto simp: authorizeAllResultsDecryption_def Let_def split: if_splits)
  have acl':
    "acl (fhe st') = acl (fhe st) @ map (\<lambda>h. (h, msg_sender)) (result_handles st surveyId)"
    by (simp add: st' fold_allowQuestionCounts_acl result_handles_exists [OF ex] FHE_allow_def
        map_concat comp_def)
  have g: "granted_by st st' = map (\<lambda>h. (h, msg_sender)) (result_handles st surveyId)"
    by (simp add: granted_by_def acl')
  have f: "fst ` set (granted_by st st') = set (result_handles st surveyId)"
    by (simp add: g image_image)
  have ne: "set (result_handles st surveyId) \<noteq> {}"
    by (simp add: result_handles_exists [OF ex])
  have s: "snd ` set (granted_by st st') = {msg_sender}"
    using ne by (simp add: g image_image image_constant_conv)
  show ?thesis
    using ex acl' g f s
    by (simp add: st' getTotalResponses_def getQuestionOptionCounts_def Let_def)
qed

subsection \<open>The aggregation loops\<close>

lemmas FHE_defs = FHE_asEuint32_def FHE_eq_def FHE_gt_def FHE_and_def FHE_select_def
  FHE_add_def FHE_allow_def FHE_allowThis_def

lemma singleChoiceStep_bump:
  "singleChoiceStep self ans q =
     (\<lambda>j. bump self 6 q j (if plain ans = of_nat j then 1 else 0))"
  by (intro ext) (simp add: singleChoiceStep_def bump_def FHE_defs Let_def split_def
      eval_nat_numeral)

lemma multipleChoiceStep_bump:
  "multipleChoiceStep self ans q =
     (\<lambda>j. bump self 8 q j
            (if 0 < plain ans AND push_bit (unat (of_nat j :: 32 word)) 1 then 1 else 0))"
  by (intro ext) (simp add: multipleChoiceStep_def bump_def FHE_defs Let_def split_def
      eval_nat_numeral)

lemma ratingStep_bump:
  "ratingStep self ans q =
     (\<lambda>r. bump self 6 q (r - 1) (if plain ans = of_nat r then 1 else 0))"
  by (intro ext) (simp add: ratingStep_def bump_def FHE_defs Let_def split_def
      eval_nat_numeral)

lemma fold_bump_fields:
  "fold (\<lambda>x. bump self k q (b x) (v x)) xs (survey, f) = (survey', f') \<Longrightarrow>
   survey' = survey\<lparr>aggregatedCounts := aggregatedCounts survey'\<rparr>"
proof (induction xs arbitrary: survey f)
  case Nil
  then show ?case by simp
next
  case (Cons x xs)
  obtain s1 f1 where b: "bump self k q (b x) (v x) (survey, f) = (s1, f1)"
    by (cases "bump self k q (b x) (v x) (survey, f)")
  then obtain A1 where s1: "s1 = survey\<lparr>aggregatedCounts := A1\<rparr>"
    by (auto simp: bump_def)
  from Cons.prems b have "fold (\<lambda>x. bump self k q (b x) (v x)) xs (s1, f1) = (survey', f')"
    by simp
  from Cons.IH [OF this] have "survey' = s1\<lparr>aggregatedCounts := aggregatedCounts survey'\<rparr>" .
  then show ?case unfolding s1 by simp
qed

lemma fold_bump_other:
  "fold (\<lambda>x. bump self k q (b x) (v x)) xs (survey, f) = (survey', f') \<Longrightarrow> q' \<noteq> q \<Longrightarrow>
   aggregatedCounts survey' q' = aggregatedCounts survey q'"
proof (induction xs arbitrary: survey f)
  case Nil
  then show ?case by simp
next
  case (Cons x xs)
  obtain s1 f1 where b: "bump self k q (b x) (v x) (survey, f) = (s1, f1)"
    by (cases "bump self k q (b x) (v x) (survey, f)")
  then have s1: "aggregatedCounts s1 q' = aggregatedCounts survey q'"
    using Cons.prems(2) by (auto simp: bump_def)
  from Cons.prems b have "fold (\<lambda>x. bump self k q (b x) (v x)) xs (s1, f1) = (survey', f')"
    by simp
  from Cons.IH [OF this Cons.prems(2)] s1 show ?case by simp
qed

lemma fold_bump_plain:
  "fold (\<lambda>x. bump self k q (b x) (v x)) xs (survey, f) = (survey', f') \<Longrightarrow>
   plain (aggregatedCounts survey' q j) =
     plain (aggregatedCounts survey q j) + sum_list (map v (filter (\<lambda>x. b x = j) xs))"
proof (induction xs arbitrary: survey f)
  case Nil
  then show ?case by simp
next
  case (Cons x xs)
  obtain s1 f1 where b: "bump self k q (b x) (v x) (survey, f) = (s1, f1)"
    by (cases "bump self k q (b x) (v x) (survey, f)")
  then have s1: "plain (aggregatedCounts s1 q j) =
      plain (aggregatedCounts survey q j) + (if b x = j then v x else 0)"
    by (auto simp: bump_def)
  from Cons.prems b have "fold (\<lambda>x. bump self k q (b x) (v x)) xs (s1, f1) = (survey', f')"
    by simp
  from Cons.IH [OF this] s1 show ?case by simp
qed

lemma sum_list_filter_eq_upt:
  "sum_list (map v (filter (\<lambda>x. x = j) [0..<n])) = (if j < n then v j else (0::32 word))"
  by (induction n) (auto simp: less_Suc_eq)

lemma sum_list_filter_rating:
  "sum_list (map v (filter (\<lambda>r. r - 1 = j) [1..<6])) =
     (if j < 5 then v (j + 1) else (0::32 word))"
proof -
  have l: "[1..<6] = map Suc [0..<5]"
    by (simp add: map_Suc_upt eval_nat_numeral)
  have "sum_list (map v (filter (\<lambda>r. r - 1 = j) (map Suc [0..<5]))) =
        sum_list (map (\<lambda>x. v (Suc x)) (filter (\<lambda>x. x = j) [0..<5]))"
    by (simp add: filter_map comp_def)
  then show ?thesis
    unfolding l by (simp only: sum_list_filter_eq_upt Suc_eq_plus1)
qed

lemma aggregateAnswer_fields:
  "aggregateAnswer self ans q (survey, f) = (survey', f') \<Longrightarrow>
   survey' = survey\<lparr>aggregatedCounts := aggregatedCounts survey'\<rparr>"
  by (cases "qType (questions survey q)")
     (auto simp: aggregateAnswer_def Let_def singleChoiceStep_bump multipleChoiceStep_bump
        ratingStep_bump dest: fold_bump_fields)

lemma aggregateAnswer_other:
  "aggregateAnswer self ans q (survey, f) = (survey', f') \<Longrightarrow> q' \<noteq> q \<Longrightarrow>
   aggregatedCounts survey' q' = aggregatedCounts survey q'"
  by (cases "qType (questions survey q)")
     (auto simp: aggregateAnswer_def Let_def singleChoiceStep_bump multipleChoiceStep_bump
        ratingStep_bump dest: fold_bump_other)

lemma aggregateAnswer_plain:
  assumes "aggregateAnswer self ans q (survey, f) = (survey', f')"
  shows "plain (aggregatedCounts survey' q j) =
     plain (aggregatedCounts survey q j) + bucket_inc (questions survey q) (plain ans) j"
proof (cases "qType (questions survey q)")
  case SingleChoice
  with assms have "fold (\<lambda>x. bump self 6 q x (if plain ans = of_nat x then 1 else 0))
      [0..<optionCount (questions survey q)] (survey, f) = (survey', f')"
    by (simp add: aggregateAnswer_def Let_def singleChoiceStep_bump)
  from fold_bump_plain [OF this, of j] show ?thesis
    by (simp add: sum_list_filter_eq_upt bucket_inc_def SingleChoice)
next
  case MultipleChoice
  with assms have "fold (\<lambda>x. bump self 8 q x
        (if 0 < plain ans AND push_bit (unat (of_nat x :: 32 word)) 1 then 1 else 0))
      [0..<optionCount (questions survey q)] (survey, f) = (survey', f')"
    by (simp add: aggregateAnswer_def Let_def multipleChoiceStep_bump)
  from fold_bump_plain [OF this, of j] show ?thesis
    by (simp add: sum_list_filter_eq_upt bucket_inc_def MultipleChoice)
next
  case Rating
  with assms have "fold (\<lambda>r. bump self 6 q (r - 1) (if plain ans = of_nat r then 1 else 0))
      [1..<6] (survey, f) = (survey', f')"
    by (simp add: aggregateAnswer_def Let_def ratingStep_bump)
  then have e: "plain (aggregatedCounts survey' q j) =
      plain (aggregatedCounts survey q j) +
      sum_list (map (\<lambda>r. if plain ans = of_nat r then 1 else 0)
                  (filter (\<lambda>r. r - 1 = j) [1..<6]))"
    by (rule fold_bump_plain)
  show ?thesis
    unfolding e sum_list_filter_rating by (simp add: bucket_inc_def Rating)
qed

subsection \<open>The loop over the questions and the whole submission\<close>

lemma processAnswers_Cons_Inr:
  assumes "processAnswers self xs ps (q0 # qs) (survey, response, f) = Inr r"
  obtains survey1 f3 where "ps ! q0 = ValidProof"
    and "aggregateAnswer self \<lparr>handle = Suc (allocated f), plain = xs ! q0\<rparr> q0
           (survey, FHE_allowThis self \<lparr>handle = Suc (allocated f), plain = xs ! q0\<rparr>
                      (f\<lparr>allocated := Suc (allocated f)\<rparr>)) = (survey1, f3)"
    and "processAnswers self xs ps qs
           (survey1,
            response\<lparr>encryptedAnswers := (encryptedAnswers response)
              (q0 := \<lparr>handle = Suc (allocated f), plain = xs ! q0\<rparr>)\<rparr>, f3) = Inr r"
  using assms
  by (auto simp: FHE_fromExternal_def Let_def split: inputProof.splits prod.splits)

lemma processAnswers_fields:
  "processAnswers self xs ps qs (survey, response, f) = Inr (survey', response', f') \<Longrightarrow>
   survey' = survey\<lparr>aggregatedCounts := aggregatedCounts survey'\<rparr> \<and>
   response' = response\<lparr>encryptedAnswers := encryptedAnswers response'\<rparr>"
proof (induction qs arbitrary: survey response f)
  case Nil
  then show ?case by simp
next
  case (Cons q0 qs)
  from Cons.prems obtain survey1 f3 where
    agg: "aggregateAnswer self \<lparr>handle = Suc (allocated f), plain = xs ! q0\<rparr> q0
           (survey, FHE_allowThis self \<lparr>handle = Suc (allocated f), plain = xs ! q0\<rparr>
                      (f\<lparr>allocated := Suc (allocated f)\<rparr>)) = (survey1, f3)"
    and rest: "processAnswers self xs ps qs
           (survey1,
            response\<lparr>encryptedAnswers := (encryptedAnswers response)
              (q0 := \<lparr>handle = Suc (allocated f), plain = xs ! q0\<rparr>)\<rparr>, f3) =
           Inr (survey', response', f')"
    by (rule processAnswers_Cons_Inr)
  from aggregateAnswer_fields [OF agg] obtain A1 where
    s1: "survey1 = survey\<lparr>aggregatedCounts := A1\<rparr>" by blast
  from Cons.IH [OF rest] show ?case unfolding s1 by simp
qed

lemma processAnswers_untouched:
  "processAnswers self xs ps qs (survey, response, f) = Inr (survey', response', f') \<Longrightarrow>
   q \<notin> set qs \<Longrightarrow>
   aggregatedCounts survey' q = aggregatedCounts survey q \<and>
   encryptedAnswers response' q = encryptedAnswers response q"
proof (induction qs arbitrary: survey response f)
  case Nil
  then show ?case by simp
next
  case (Cons q0 qs)
  from Cons.prems(1) obtain survey1 f3 where
    agg: "aggregateAnswer self \<lparr>handle = Suc (allocated f), plain = xs ! q0\<rparr> q0
           (survey, FHE_allowThis self \<lparr>handle = Suc (allocated f), plain = xs ! q0\<rparr>
                      (f\<lparr>allocated := Suc (allocated f)\<rparr>)) = (survey1, f3)"
    and rest: "processAnswers self xs ps qs
           (survey1,
            response\<lparr>encryptedAnswers := (encryptedAnswers response)
              (q0 := \<lparr>handle = Suc (allocated f), plain = xs ! q0\<rparr>)\<rparr>, f3) =
           Inr (survey', response', f')"
    by (rule processAnswers_Cons_Inr)
  from Cons.prems(2) have ne: "q \<noteq> q0" and nin: "q \<notin> set qs" by auto
  from Cons.IH [OF rest nin] aggregateAnswer_other [OF agg ne] ne show ?case by simp
qed

lemma processAnswers_plain:
  "processAnswers self xs ps qs (survey, response, f) = Inr (survey', response', f') \<Longrightarrow>
   distinct qs \<Longrightarrow> q \<in> set qs \<Longrightarrow>
   plain (aggregatedCounts survey' q j) =
     plain (aggregatedCounts survey q j) + bucket_inc (questions survey q) (xs ! q) j \<and>
   plain (encryptedAnswers response' q) = xs ! q"
proof (induction qs arbitrary: survey response f)
  case Nil
  then show ?case by simp
next
  case (Cons q0 qs)
  from Cons.prems(1) obtain survey1 f3 where
    agg: "aggregateAnswer self \<lparr>handle = Suc (allocated f), plain = xs ! q0\<rparr> q0
           (survey, FHE_allowThis self \<lparr>handle = Suc (allocated f), plain = xs ! q0\<rparr>
                      (f\<lparr>allocated := Suc (allocated f)\<rparr>)) = (survey1, f3)"
    and rest: "processAnswers self xs ps qs
           (survey1,
            response\<lparr>encryptedAnswers := (encryptedAnswers response)
              (q0 := \<lparr>handle = Suc (allocated f), plain = xs ! q0\<rparr>)\<rparr>, f3) =
           Inr (survey', response', f')"
    by (rule processAnswers_Cons_Inr)
  from aggregateAnswer_fields [OF agg] obtain A1 where
    s1: "survey1 = survey\<lparr>aggregatedCounts := A1\<rparr>" by blast
  then have qs1: "questions survey1 = questions survey" by simp
  from Cons.prems(2) have d: "distinct qs" and q0: "q0 \<notin> set qs" by auto
  show ?case
  proof (cases "q = q0")
    case True
    from processAnswers_untouched [OF rest q0] aggregateAnswer_plain [OF agg, of j]
    show ?thesis by (simp add: True)
  next
    case False
    with Cons.prems(3) have "q \<in> set qs" by simp
    from Cons.IH [OF rest d this] aggregateAnswer_other [OF agg False] qs1
    show ?thesis by simp
  qed
qed

lemma processAnswers_success:
  "\<forall>q \<in> set qs. ps ! q = ValidProof \<Longrightarrow>
   \<exists>r. processAnswers self xs ps qs (survey, response, f) = Inr r"
  by (induction qs arbitrary: survey response f)
     (auto simp: FHE_fromExternal_def Let_def split: prod.splits)

lemma submitResponse_Inr:
  assumes "submitResponse self a now st sid xs ps = Inr st'"
  obtains survey1 response1 f1 where
    "exists_s (surveys st sid)" "isActive (surveys st sid)"
    "startTime (surveys st sid) \<le> now" "now \<le> endTime (surveys st sid)"
    "length xs = questionCount (surveys st sid)" "length ps = questionCount (surveys st sid)"
    "\<not> exists_r (responses st sid a)"
    "processAnswers self xs ps [0..<questionCount (surveys st sid)]
       (surveys st sid, (responses st sid a)\<lparr>exists_r := True, submittedAt := now\<rparr>, fhe st) =
     Inr (survey1, response1, f1)"
    "st' = st\<lparr>surveys := (surveys st)
             (sid := survey1\<lparr>totalResponses :=
                \<lparr>handle = allocated f1 + 2, plain = plain (totalResponses survey1) + 1\<rparr>\<rparr>),
           responses := (responses st)(sid := (responses st sid)(a := response1)),
           fhe := f1\<lparr>allocated := allocated f1 + 2,
                    acl := acl f1 @ [(allocated f1 + 2, self),
                                     (allocated f1 + 2, creator survey1)]\<rparr>,
           events := events st @ [ResponseSubmitted sid a]\<rparr>"
  using assms
  by (auto simp: submitResponse_def Let_def FHE_defs split: if_splits sum.splits prod.splits)

lemma submitResponse_agg:
  assumes "submitResponse self a now st sid xs ps = Inr st'"
  shows "plain (aggregatedCounts (surveys st' sid) q j) =
     plain (aggregatedCounts (surveys st sid) q j) + answer_inc (surveys st sid) q (xs ! q) j"
proof -
  from assms obtain survey1 response1 f1 where
    pa: "processAnswers self xs ps [0..<questionCount (surveys st sid)]
       (surveys st sid, (responses st sid a)\<lparr>exists_r := True, submittedAt := now\<rparr>, fhe st) =
     Inr (survey1, response1, f1)"
    and st': "aggregatedCounts (surveys st' sid) = aggregatedCounts survey1"
    by (rule submitResponse_Inr) simp
  show ?thesis
  proof (cases "q < questionCount (surveys st sid)")
    case True
    then have "q \<in> set [0..<questionCount (surveys st sid)]" by simp
    from processAnswers_plain [OF pa _ this, of j] True show ?thesis
      by (simp add: st' answer_inc_def)
  next
    case False
    then have "q \<notin> set [0..<questionCount (surveys st sid)]" by simp
    from processAnswers_untouched [OF pa this] False show ?thesis
      by (simp add: st' answer_inc_def)
  qed
qed

lemma submitResponse_survey:
  assumes "submitResponse self a now st sid xs ps = Inr st'"
  shows "metadata (surveys st' sid) = metadata (surveys st sid)"
    and "exists_s (surveys st' sid)" and "exists_s (surveys st sid)"
    and "isActive (surveys st' sid) = isActive (surveys st sid)"
    and "plain (totalResponses (surveys st' sid)) = plain (totalResponses (surveys st sid)) + 1"
    and "sid' \<noteq> sid \<Longrightarrow> surveys st' sid' = surveys st sid'"
    and "surveyCounter st' = surveyCounter st"
    and "permissions st' = permissions st"
proof -
  from assms obtain survey1 response1 f1 where
    ex: "exists_s (surveys st sid)" and
    pa: "processAnswers self xs ps [0..<questionCount (surveys st sid)]
       (surveys st sid, (responses st sid a)\<lparr>exists_r := True, submittedAt := now\<rparr>, fhe st) =
     Inr (survey1, response1, f1)"
    and st': "st' = st\<lparr>surveys := (surveys st)
             (sid := survey1\<lparr>totalResponses :=
                \<lparr>handle = allocated f1 + 2, plain = plain (totalResponses survey1) + 1\<rparr>\<rparr>),
           responses := (responses st)(sid := (responses st sid)(a := response1)),
           fhe := f1\<lparr>allocated := allocated f1 + 2,
                    acl := acl f1 @ [(allocated f1 + 2, self),
                                     (allocated f1 + 2, creator survey1)]\<rparr>,
           events := events st @ [ResponseSubmitted sid a]\<rparr>"
    by (rule submitResponse_Inr)
  from processAnswers_fields [OF pa] obtain A1 where
    s1: "survey1 = (surveys st sid)\<lparr>aggregatedCounts := A1\<rparr>" by blast
  show "metadata (surveys st' sid) = metadata (surveys st sid)"
    by (simp add: st' s1 metadata_def)
  show "exists_s (surveys st' sid)" using ex by (simp add: st' s1)
  show "exists_s (surveys st sid)" by (rule ex)
  show "isActive (surveys st' sid) = isActive (surveys st sid)" by (simp add: st' s1)
  show "plain (totalResponses (surveys st' sid)) = plain (totalResponses (surveys st sid)) + 1"
    by (simp add: st' s1)
  show "sid' \<noteq> sid \<Longrightarrow> surveys st' sid' = surveys st sid'" by (simp add: st')
  show "surveyCounter st' = surveyCounter st" by (simp add: st')
  show "permissions st' = permissions st" by (simp add: st')
qed

lemma submitResponse_response:
  assumes "submitResponse self a now st sid xs ps = Inr st'"
  shows "exists_r (responses st' sid a)"
    and "submittedAt (responses st' sid a) = now"
    and "\<not> exists_r (responses st sid a)"
    and "q < questionCount (surveys st sid) \<Longrightarrow>
           plain (encryptedAnswers (responses st' sid a) q) = xs ! q"
    and "(sid', a') \<noteq> (sid, a) \<Longrightarrow> responses st' sid' a' = responses st sid' a'"
proof -
  from assms obtain survey1 response1 f1 where
    nex: "\<not> exists_r (responses st sid a)" and
    pa: "processAnswers self xs ps [0..<questionCount (surveys st sid)]
       (surveys st sid, (responses st sid a)\<lparr>exists_r := True, submittedAt := now\<rparr>, fhe st) =
     Inr (survey1, response1, f1)"
    and st': "responses st' = (responses st)(sid := (responses st sid)(a := response1))"
    by (rule submitResponse_Inr) simp
  from processAnswers_fields [OF pa] obtain E1 where
    r1: "response1 = (responses st sid a)
           \<lparr>exists_r := True, submittedAt := now\<rparr>\<lparr>encryptedAnswers := E1\<rparr>"
    by blast
  show "exists_r (responses st' sid a)" by (simp add: st' r1)
  show "submittedAt (responses st' sid a) = now" by (simp add: st' r1)
  show "\<not> exists_r (responses st sid a)" by (rule nex)
  show "plain (encryptedAnswers (responses st' sid a) q) = xs ! q"
    if "q < questionCount (surveys st sid)"
  proof -
    from that have "q \<in> set [0..<questionCount (surveys st sid)]" by simp
    from processAnswers_plain [OF pa _ this] show ?thesis by (simp add: st')
  qed
  show "(sid', a') \<noteq> (sid, a) \<Longrightarrow> responses st' sid' a' = responses st sid' a'"
    by (auto simp: st')
qed

subsection \<open>Invariants of the transaction system\<close>

lemmas op_defs = grantPermission_def revokePermission_def setSurveyStatus_def
  authorizeMyDecryption_def authorizeAllResultsDecryption_def

lemma createSurvey_Inr:
  assumes "createSurvey self a now st ti ca ta s e qt qy qo = Inr (sid, st')"
  obtains qs where "sid = surveyCounter st"
    "ti \<noteq> []" "s < e" "0 < length qt" "length qt \<le> 20"
    "length qy = length qt" "length qo = length qt"
    "initQuestions qt qy qo [0..<length qt] (questions (surveys st sid)) = Inr qs"
    "st' = st\<lparr>surveys := (surveys st)
             (sid := (surveys st sid)
                \<lparr>creator := a, title := ti, category := ca, tags := ta, createdAt := now,
                 startTime := s, endTime := e, exists_s := True, isActive := True,
                 questionCount := length qt, questions := qs,
                 totalResponses := \<lparr>handle = Suc (allocated (fhe st)), plain = 0\<rparr>\<rparr>),
           permissions := (permissions st)
             (sid := (permissions st sid)
                (a := (permissions st sid a)
                   \<lparr>canView := True, canExport := True, canManage := True,
                    exists_p := True\<rparr>)),
           surveyCounter := Suc (surveyCounter st),
           fhe := (fhe st)\<lparr>allocated := Suc (allocated (fhe st)),
                    acl := acl (fhe st) @ [(Suc (allocated (fhe st)), self),
                                           (Suc (allocated (fhe st)), a)]\<rparr>,
           events := events st @ [SurveyCreated sid a ti ca (length qt)]\<rparr>"
  using assms
  by (auto simp: createSurvey_def Let_def FHE_defs split: if_splits sum.splits prod.splits)

lemma step_registered:
  assumes "registered st"
  shows "registered (step self st t)"
proof (cases "exec self st t")
  case (Inl e)
  then show ?thesis using assms by (simp add: step_def)
next
  case (Inr st')
  then have st': "step self st t = st'" by (simp add: step_def)
  show ?thesis
  proof (cases "tx_call t")
    case (CreateSurvey ti ca ta s e qt qy qo)
    with Inr obtain sid where
      "createSurvey self (tx_sender t) (tx_timestamp t) st ti ca ta s e qt qy qo = Inr (sid, st')"
      by (auto simp: exec_def split: sum.splits)
    then show ?thesis using assms unfolding st'
      by (elim createSurvey_Inr) (auto simp: registered_def less_Suc_eq)
  next
    case (SubmitResponse sid xs ps)
    with Inr have sub: "submitResponse self (tx_sender t) (tx_timestamp t) st sid xs ps = Inr st'"
      by (simp add: exec_def)
    show ?thesis unfolding st' registered_def
    proof (intro allI impI)
      fix sid'
      assume ex: "exists_s (surveys st' sid')"
      show "sid' < surveyCounter st'"
      proof (cases "sid' = sid")
        case True
        with submitResponse_survey(3,7) [OF sub] assms show ?thesis
          by (simp add: registered_def)
      next
        case False
        with submitResponse_survey(6,7) [OF sub] assms ex show ?thesis
          by (simp add: registered_def)
      qed
    qed
  qed (use Inr assms in \<open>auto simp: st' exec_def op_defs registered_def Let_def split: if_splits\<close>)
qed

lemma run_registered: "registered st \<Longrightarrow> registered (run self st ts)"
  unfolding run_def by (induction ts arbitrary: st) (simp_all add: step_registered)

lemma registered_deployed: "registered deployed"
  by (simp add: registered_def deployed_def emptySurvey_def)

lemma step_survey:
  assumes "registered st" and "exists_s (surveys st sid)"
  shows "metadata (surveys (step self st t) sid) = metadata (surveys st sid)"
    and "exists_s (surveys (step self st t) sid)"
    and "isActive (surveys (step self st t) sid) \<noteq> isActive (surveys st sid) \<Longrightarrow>
           (\<exists>b. tx_call t = SetSurveyStatus sid b) \<and>
           (tx_sender t = creator (surveys st sid) \<or>
            (exists_p (permissions st sid (tx_sender t)) \<and>
             canManage (permissions st sid (tx_sender t))))"
proof -
  have "metadata (surveys (step self st t) sid) = metadata (surveys st sid) \<and>
        exists_s (surveys (step self st t) sid) \<and>
        (isActive (surveys (step self st t) sid) \<noteq> isActive (surveys st sid) \<longrightarrow>
           (\<exists>b. tx_call t = SetSurveyStatus sid b) \<and>
           (tx_sender t = creator (surveys st sid) \<or>
            (exists_p (permissions st sid (tx_sender t)) \<and>
             canManage (permissions st sid (tx_sender t)))))"
  proof (cases "exec self st t")
    case (Inl e)
    then show ?thesis using assms by (simp add: step_def)
  next
    case (Inr st')
    then have st': "step self st t = st'" by (simp add: step_def)
    show ?thesis
    proof (cases "tx_call t")
      case (CreateSurvey ti ca ta s e qt qy qo)
      with Inr obtain sid' where
        "createSurvey self (tx_sender t) (tx_timestamp t) st ti ca ta s e qt qy qo = Inr (sid', st')"
        by (auto simp: exec_def split: sum.splits)
      then show ?thesis using assms unfolding st'
        by (elim createSurvey_Inr) (auto simp: registered_def)
    next
      case (SubmitResponse sid' xs ps)
      with Inr have
        sub: "submitResponse self (tx_sender t) (tx_timestamp t) st sid' xs ps = Inr st'"
        by (simp add: exec_def)
      show ?thesis
      proof (cases "sid' = sid")
        case True
        with submitResponse_survey(1,2,4) [OF sub] show ?thesis by (simp add: st')
      next
        case False
        then have "surveys st' sid = surveys st sid"
          using submitResponse_survey(6) [OF sub, of sid] by simp
        then show ?thesis using assms by (simp add: st')
      qed
    qed (use Inr assms in \<open>auto simp: st' exec_def op_defs metadata_def Let_def split: if_splits\<close>)
  qed
  then show "metadata (surveys (step self st t) sid) = metadata (surveys st sid)"
    and "exists_s (surveys (step self st t) sid)"
    and "isActive (surveys (step self st t) sid) \<noteq> isActive (surveys st sid) \<Longrightarrow>
           (\<exists>b. tx_call t = SetSurveyStatus sid b) \<and>
           (tx_sender t = creator (surveys st sid) \<or>
            (exists_p (permissions st sid (tx_sender t)) \<and>
             canManage (permissions st sid (tx_sender t))))"
    by blast+
qed

lemma run_survey:
  "registered st \<Longrightarrow> exists_s (surveys st sid) \<Longrightarrow>
   metadata (surveys (run self st ts) sid) = metadata (surveys st sid) \<and>
   exists_s (surveys (run self st ts) sid)"
  unfolding run_def
proof (induction ts arbitrary: st)
  case Nil
  then show ?case by simp
next
  case (Cons t ts)
  from Cons.IH [OF step_registered [OF Cons.prems(1)] step_survey(2) [OF Cons.prems]]
    step_survey(1) [OF Cons.prems]
  show ?case by simp
qed

subsection \<open>Accepted submissions\<close>

lemma created_state:
  "\<not> exists_r (responses created 0 8)"
  "aggregatedCounts (surveys created 0) = (\<lambda>_ _. uninitialized)"
  "plain (totalResponses (surveys created 0)) = 0"
  by (simp_all add: created_def step_def exec_def create_tx_def createSurvey_def deployed_def
      FHE_asEuint32_def FHE_allow_def FHE_allowThis_def Let_def emptyResponse_def
      emptySurvey_def)

lemma submitResponse_success:
  assumes "exists_s (surveys st sid)" "isActive (surveys st sid)"
    "startTime (surveys st sid) \<le> now" "now \<le> endTime (surveys st sid)"
    "length xs = questionCount (surveys st sid)" "length ps = questionCount (surveys st sid)"
    "\<not> exists_r (responses st sid a)" "\<forall>p \<in> set ps. p = ValidProof"
  shows "\<exists>st'. submitResponse self a now st sid xs ps = Inr st'"
proof -
  have "\<forall>q \<in> set [0..<questionCount (surveys st sid)]. ps ! q = ValidProof"
    using assms(6,8) by simp
  from processAnswers_success [OF this] obtain r where
    "processAnswers self xs ps [0..<questionCount (surveys st sid)]
       (surveys st sid, (responses st sid a)\<lparr>exists_r := True, submittedAt := now\<rparr>, fhe st) =
     Inr r" by blast
  then show ?thesis using assms(1-7)
    by (cases r) (simp add: submitResponse_def Let_def split_def)
qed

lemma submit_tx_accepted:
  "\<exists>st'. submitResponse 99 8 150 created 0 [1, 5, 3] [ValidProof, ValidProof, ValidProof] =
          Inr st'"
  by (rule submitResponse_success) (simp_all add: created_survey created_state)

lemma step_keeps_response:
  assumes "exists_r (responses st sid a)"
  shows "responses (step self st t) sid a = responses st sid a"
proof (cases "exec self st t")
  case (Inl e)
  then show ?thesis by (simp add: step_def)
next
  case (Inr st')
  then have st': "step self st t = st'" by (simp add: step_def)
  show ?thesis
  proof (cases "tx_call t")
    case (CreateSurvey ti ca ta s e qt qy qo)
    with Inr obtain sid' where
      "createSurvey self (tx_sender t) (tx_timestamp t) st ti ca ta s e qt qy qo = Inr (sid', st')"
      by (auto simp: exec_def split: sum.splits)
    then show ?thesis unfolding st' by (elim createSurvey_Inr) simp
  next
    case (SubmitResponse sid' xs ps)
    with Inr have
      sub: "submitResponse self (tx_sender t) (tx_timestamp t) st sid' xs ps = Inr st'"
      by (simp add: exec_def)
    from submitResponse_response(3) [OF sub] assms have "(sid, a) \<noteq> (sid', tx_sender t)"
      by auto
    from submitResponse_response(5) [OF sub this] show ?thesis by (simp add: st')
  qed (use Inr in \<open>auto simp: st' exec_def op_defs Let_def split: if_splits\<close>)
qed

lemma run_keeps_response:
  "exists_r (responses st sid a) \<Longrightarrow> responses (run self st ts) sid a = responses st sid a"
  unfolding run_def by (induction ts arbitrary: st) (simp_all add: step_keeps_response)

text \<open>
  C3: once a \<open>submitResponse\<close> call from an address to a survey has succeeded, then after
  any further transactions the response record of that (survey, address) pair is still the
  one written by that call, and every \<open>submitResponse\<close> call from the same address to the
  same survey fails, whatever its arguments and timestamp, leaving the state as it was.
\<close>

theorem C3_one_response:
  assumes "submitResponse self a now st sid xs ps = Inr st1"
  shows "responses (run self st1 ts) sid a = responses st1 sid a \<and>
         hasResponded (run self st1 ts) sid a \<and>
         (\<exists>e. submitResponse self a now' (run self st1 ts) sid xs' ps' = Inl e) \<and>
         step self (run self st1 ts)
           \<lparr>tx_sender = a, tx_timestamp = now', tx_call = SubmitResponse sid xs' ps'\<rparr> =
         run self st1 ts"
proof -
  have ex: "exists_r (responses st1 sid a)"
    by (rule submitResponse_response(1) [OF assms])
  have same: "responses (run self st1 ts) sid a = responses st1 sid a"
    by (rule run_keeps_response [OF ex])
  with ex have ex': "exists_r (responses (run self st1 ts) sid a)" by simp
  then have fails: "\<exists>e. submitResponse self a now' (run self st1 ts) sid xs' ps' = Inl e"
    by (simp add: submitResponse_def Let_def)
  then have "step self (run self st1 ts)
           \<lparr>tx_sender = a, tx_timestamp = now', tx_call = SubmitResponse sid xs' ps'\<rparr> =
         run self st1 ts"
    by (auto simp: step_def exec_def)
  with same ex' fails show ?thesis by (simp add: hasResponded_def)
qed

theorem C3_one_response_witness:
  "\<exists>st1. submitResponse 99 8 150 created 0 [1, 5, 3] [ValidProof, ValidProof, ValidProof] =
           Inr st1 \<and>
     hasResponded (run 99 st1 [create_tx]) 0 8 \<and>
     (\<exists>e. submitResponse 99 8 160 (run 99 st1 [create_tx]) 0 [0, 0, 1]
             [ValidProof, ValidProof, ValidProof] = Inl e)"
proof -
  from submit_tx_accepted obtain st1 where
    ok: "submitResponse 99 8 150 created 0 [1, 5, 3] [ValidProof, ValidProof, ValidProof] =
           Inr st1" by blast
  from C3_one_response [OF ok, of "[create_tx]" 160 "[0, 0, 1]"
      "[ValidProof, ValidProof, ValidProof]"] ok
  show ?thesis by blast
qed

subsection \<open>Survey metadata\<close>

text \<open>
  C9: for a survey that exists in a reachable state, no sequence of later transactions
  changes its creator, title, category, tags, creation timestamp, start time, end time,
  question count or any of its questions (text, type, option count, option list); and a
  transaction that changes its active flag is a \<open>setSurveyStatus\<close> call for that survey sent
  by the creator or by a holder of the \<open>canManage\<close> permission.
\<close>

theorem C9_metadata_immutable:
  assumes "st = run self deployed ts" and "exists_s (surveys st sid)"
  shows "metadata (surveys (run self st ts') sid) = metadata (surveys st sid) \<and>
         exists_s (surveys (run self st ts') sid) \<and>
         (isActive (surveys (step self st t) sid) \<noteq> isActive (surveys st sid) \<longrightarrow>
            (\<exists>b. tx_call t = SetSurveyStatus sid b) \<and>
            (tx_sender t = creator (surveys st sid) \<or>
             (exists_p (permissions st sid (tx_sender t)) \<and>
              canManage (permissions st sid (tx_sender t)))))"
proof -
  have r: "registered st"
    unfolding assms(1) by (rule run_registered [OF registered_deployed])
  from run_survey [OF r assms(2)] step_survey(3) [OF r assms(2)] show ?thesis by blast
qed

theorem C9_metadata_immutable_witness:
  "exists_s (surveys (run 99 deployed [create_tx]) 0) \<and>
   metadata (surveys (run 99 (run 99 deployed [create_tx]) [submit_tx]) 0) =
     metadata (surveys (run 99 deployed [create_tx]) 0) \<and>
   isActive (surveys (step 99 (run 99 deployed [create_tx])
       \<lparr>tx_sender = 7, tx_timestamp = 60, tx_call = SetSurveyStatus 0 False\<rparr>) 0) \<noteq>
     isActive (surveys (run 99 deployed [create_tx]) 0) \<and>
   7 = creator (surveys (run 99 deployed [create_tx]) 0)"
proof -
  have c: "run 99 deployed [create_tx] = created"
    by (simp add: run_def created_def)
  have a: "isActive (surveys (step 99 created
       \<lparr>tx_sender = 7, tx_timestamp = 60, tx_call = SetSurveyStatus 0 False\<rparr>) 0) \<noteq>
     isActive (surveys created 0)"
    by (simp add: step_def exec_def setSurveyStatus_def created_survey Let_def)
  from C9_metadata_immutable [of created 99 "[create_tx]" 0 "[submit_tx]"
      "\<lparr>tx_sender = 7, tx_timestamp = 60, tx_call = SetSurveyStatus 0 False\<rparr>"] a
  show ?thesis by (simp add: c created_survey)
qed

subsection \<open>Counting along a sequence of transactions\<close>

lemma word32_of_nat_eq:
  "j < 2 ^ 32 \<Longrightarrow> (a = (of_nat j :: 32 word)) = (unat a = j)"
  by (auto simp: of_nat_inverse)

lemma word32_mask_test:
  assumes "j < 2 ^ 32"
  shows "(0 < a AND push_bit (unat (of_nat j :: 32 word)) 1) = bit (a :: 32 word) j"
proof -
  from assms have "unat (of_nat j :: 32 word) = j"
    by (simp add: of_nat_inverse)
  then show ?thesis
    by (simp only: word_gt_0 bit_iff_and_push_bit_not_eq_0 [of a j]) auto
qed

lemma fold_bump_same:
  "fold (\<lambda>x. bump self k q (b x) (v x)) xs (survey, f) = (survey', f') \<Longrightarrow>
   j \<notin> b ` set xs \<Longrightarrow> aggregatedCounts survey' q j = aggregatedCounts survey q j"
proof (induction xs arbitrary: survey f)
  case Nil
  then show ?case by simp
next
  case (Cons x xs)
  obtain s1 f1 where b: "bump self k q (b x) (v x) (survey, f) = (s1, f1)"
    by (cases "bump self k q (b x) (v x) (survey, f)")
  then have s1: "aggregatedCounts s1 q j = aggregatedCounts survey q j"
    using Cons.prems(2) by (auto simp: bump_def)
  from Cons.prems b have "fold (\<lambda>x. bump self k q (b x) (v x)) xs (s1, f1) = (survey', f')"
    by simp
  from Cons.IH [OF this] Cons.prems(2) s1 show ?case by simp
qed

lemma aggregateAnswer_same:
  assumes "aggregateAnswer self ans q (survey, f) = (survey', f')"
    and "bucketCount (questions survey q) \<le> j"
  shows "aggregatedCounts survey' q j = aggregatedCounts survey q j"
proof (cases "qType (questions survey q)")
  case SingleChoice
  with assms(1) have "fold (\<lambda>x. bump self 6 q x (if plain ans = of_nat x then 1 else 0))
      [0..<optionCount (questions survey q)] (survey, f) = (survey', f')"
    by (simp add: aggregateAnswer_def Let_def singleChoiceStep_bump)
  then show ?thesis
    using assms(2) SingleChoice by (intro fold_bump_same) (auto simp: bucketCount_def)
next
  case MultipleChoice
  with assms(1) have "fold (\<lambda>x. bump self 8 q x
        (if 0 < plain ans AND push_bit (unat (of_nat x :: 32 word)) 1 then 1 else 0))
      [0..<optionCount (questions survey q)] (survey, f) = (survey', f')"
    by (simp add: aggregateAnswer_def Let_def multipleChoiceStep_bump)
  then show ?thesis
    using assms(2) MultipleChoice by (intro fold_bump_same) (auto simp: bucketCount_def)
next
  case Rating
  with assms(1) have "fold (\<lambda>r. bump self 6 q (r - 1) (if plain ans = of_nat r then 1 else 0))
      [1..<6] (survey, f) = (survey', f')"
    by (simp add: aggregateAnswer_def Let_def ratingStep_bump)
  then show ?thesis
    using assms(2) Rating by (intro fold_bump_same) (auto simp: bucketCount_def)
qed

lemma processAnswers_same:
  "processAnswers self xs ps qs (survey, response, f) = Inr (survey', response', f') \<Longrightarrow>
   bucketCount (questions survey q) \<le> j \<Longrightarrow>
   aggregatedCounts survey' q j = aggregatedCounts survey q j"
proof (induction qs arbitrary: survey response f)
  case Nil
  then show ?case by simp
next
  case (Cons q0 qs)
  from Cons.prems(1) obtain survey1 f3 where
    agg: "aggregateAnswer self \<lparr>handle = Suc (allocated f), plain = xs ! q0\<rparr> q0
           (survey, FHE_allowThis self \<lparr>handle = Suc (allocated f), plain = xs ! q0\<rparr>
                      (f\<lparr>allocated := Suc (allocated f)\<rparr>)) = (survey1, f3)"
    and rest: "processAnswers self xs ps qs
           (survey1,
            response\<lparr>encryptedAnswers := (encryptedAnswers response)
              (q0 := \<lparr>handle = Suc (allocated f), plain = xs ! q0\<rparr>)\<rparr>, f3) =
           Inr (survey', response', f')"
    by (rule processAnswers_Cons_Inr)
  from aggregateAnswer_fields [OF agg] obtain A1 where
    s1: "survey1 = survey\<lparr>aggregatedCounts := A1\<rparr>" by blast
  then have qs1: "questions survey1 = questions survey" by simp
  have a: "aggregatedCounts survey1 q j = aggregatedCounts survey q j"
  proof (cases "q = q0")
    case True
    with aggregateAnswer_same [OF agg] Cons.prems(2) show ?thesis by simp
  next
    case False
    with aggregateAnswer_other [OF agg] show ?thesis by simp
  qed
  from Cons.IH [OF rest] Cons.prems(2) qs1 a show ?case by simp
qed

lemma submitResponse_same:
  assumes "submitResponse self a now st sid xs ps = Inr st'"
    and "bucketCount (questions (surveys st sid) q) \<le> j"
  shows "aggregatedCounts (surveys st' sid) q j = aggregatedCounts (surveys st sid) q j"
proof -
  from assms(1) obtain survey1 response1 f1 where
    pa: "processAnswers self xs ps [0..<questionCount (surveys st sid)]
       (surveys st sid, (responses st sid a)\<lparr>exists_r := True, submittedAt := now\<rparr>, fhe st) =
     Inr (survey1, response1, f1)"
    and st': "aggregatedCounts (surveys st' sid) = aggregatedCounts survey1"
    by (rule submitResponse_Inr) simp
  from processAnswers_same [OF pa assms(2)] show ?thesis by (simp add: st')
qed

lemma accepted_snoc:
  "accepted self st (ts @ [t]) sid =
     accepted self st ts sid @
     (case exec self (run self st ts) t of Inl e \<Rightarrow> [] | Inr st' \<Rightarrow> answers_to sid t)"
proof (induction ts arbitrary: st)
  case Nil
  then show ?case by (simp add: run_def split: sum.splits)
next
  case (Cons t0 ts)
  show ?case
  proof (cases "exec self st t0")
    case (Inl e)
    then have "run self st (t0 # ts) = run self st ts"
      by (simp add: run_def step_def)
    with Inl Cons.IH [of st] show ?thesis by simp
  next
    case (Inr st')
    then have "run self st (t0 # ts) = run self st' ts"
      by (simp add: run_def step_def)
    with Inr Cons.IH [of st'] show ?thesis by simp
  qed
qed

lemma run_snoc: "run self st (ts @ [t]) = step self (run self st ts) t"
  by (simp add: run_def)

lemma accepted_not_exists:
  "registered st \<Longrightarrow> \<not> exists_s (surveys (run self st ts) sid) \<Longrightarrow>
   accepted self st ts sid = []"
proof (induction ts rule: rev_induct)
  case Nil
  then show ?case by simp
next
  case (snoc t ts)
  let ?st = "run self st ts"
  have r: "registered ?st" by (rule run_registered [OF snoc.prems(1)])
  from snoc.prems(2) have n: "\<not> exists_s (surveys (step self ?st t) sid)"
    by (simp add: run_snoc)
  with step_survey(2) [OF r] have "\<not> exists_s (surveys ?st sid)" by blast
  with snoc.IH snoc.prems(1) have ih: "accepted self st ts sid = []" by simp
  have "(case exec self ?st t of Inl e \<Rightarrow> [] | Inr st' \<Rightarrow> answers_to sid t) = []"
  proof (cases "exec self ?st t")
    case (Inl e)
    then show ?thesis by simp
  next
    case (Inr st')
    then have st': "step self ?st t = st'" by (simp add: step_def)
    have "answers_to sid t = []"
    proof (rule ccontr)
      assume "answers_to sid t \<noteq> []"
      then obtain xs ps where "tx_call t = SubmitResponse sid xs ps"
        by (auto simp: answers_to_def split: call.splits if_splits)
      with Inr have "submitResponse self (tx_sender t) (tx_timestamp t) ?st sid xs ps = Inr st'"
        by (simp add: exec_def)
      from submitResponse_survey(2) [OF this] n st' show False by simp
    qed
    with Inr show ?thesis by simp
  qed
  with ih show ?case by (simp add: accepted_snoc)
qed

lemma exec_counts:
  assumes "exec self st t = Inr st1"
  shows "plain (aggregatedCounts (surveys st1 sid) q j) =
           plain (aggregatedCounts (surveys st sid) q j) +
           sum_list (map (\<lambda>xs. answer_inc (surveys st sid) q (xs ! q) j) (answers_to sid t))"
proof (cases "tx_call t")
  case (CreateSurvey ti ca ta s e qt qy qo)
  with assms obtain sid' where
    "createSurvey self (tx_sender t) (tx_timestamp t) st ti ca ta s e qt qy qo = Inr (sid', st1)"
    by (auto simp: exec_def split: sum.splits)
  then show ?thesis using CreateSurvey
    by (elim createSurvey_Inr) (simp add: answers_to_def)
next
  case (SubmitResponse sid' xs ps)
  with assms have
    sub: "submitResponse self (tx_sender t) (tx_timestamp t) st sid' xs ps = Inr st1"
    by (simp add: exec_def)
  show ?thesis
  proof (cases "sid' = sid")
    case True
    with submitResponse_agg [OF sub, of q j] SubmitResponse show ?thesis
      by (simp add: answers_to_def)
  next
    case False
    with submitResponse_survey(6) [OF sub, of sid] SubmitResponse show ?thesis
      by (simp add: answers_to_def)
  qed
qed (use assms in \<open>auto simp: exec_def op_defs answers_to_def Let_def split: if_splits\<close>)

lemma exec_total:
  assumes "exec self st t = Inr st1" and "registered st"
  shows "exists_s (surveys st sid) \<Longrightarrow>
           plain (totalResponses (surveys st1 sid)) =
             plain (totalResponses (surveys st sid)) + of_nat (length (answers_to sid t))"
    and "exists_s (surveys st sid) \<Longrightarrow> answers_to sid t = [] \<Longrightarrow>
           totalResponses (surveys st1 sid) = totalResponses (surveys st sid)"
    and "\<not> exists_s (surveys st sid) \<Longrightarrow>
           totalResponses (surveys st1 sid) = totalResponses (surveys st sid) \<or>
           plain (totalResponses (surveys st1 sid)) = 0"
proof -
  have "(exists_s (surveys st sid) \<longrightarrow>
           plain (totalResponses (surveys st1 sid)) =
             plain (totalResponses (surveys st sid)) + of_nat (length (answers_to sid t)) \<and>
           (answers_to sid t = [] \<longrightarrow>
             totalResponses (surveys st1 sid) = totalResponses (surveys st sid))) \<and>
        (\<not> exists_s (surveys st sid) \<longrightarrow>
           totalResponses (surveys st1 sid) = totalResponses (surveys st sid) \<or>
           plain (totalResponses (surveys st1 sid)) = 0)"
  proof (cases "tx_call t")
    case (CreateSurvey ti ca ta s e qt qy qo)
    with assms obtain sid' where
      "createSurvey self (tx_sender t) (tx_timestamp t) st ti ca ta s e qt qy qo = Inr (sid', st1)"
      by (auto simp: exec_def split: sum.splits)
    then show ?thesis using CreateSurvey assms(2)
      by (elim createSurvey_Inr) (auto simp: answers_to_def registered_def)
  next
    case (SubmitResponse sid' xs ps)
    with assms have
      sub: "submitResponse self (tx_sender t) (tx_timestamp t) st sid' xs ps = Inr st1"
      by (simp add: exec_def)
    show ?thesis
    proof (cases "sid' = sid")
      case True
      with submitResponse_survey(3,5) [OF sub] SubmitResponse show ?thesis
        by (simp add: answers_to_def)
    next
      case False
      with submitResponse_survey(6) [OF sub, of sid] SubmitResponse show ?thesis
        by (simp add: answers_to_def)
    qed
  qed (use assms in \<open>auto simp: exec_def op_defs answers_to_def Let_def split: if_splits\<close>)
  then show "exists_s (surveys st sid) \<Longrightarrow>
           plain (totalResponses (surveys st1 sid)) =
             plain (totalResponses (surveys st sid)) + of_nat (length (answers_to sid t))"
    and "exists_s (surveys st sid) \<Longrightarrow> answers_to sid t = [] \<Longrightarrow>
           totalResponses (surveys st1 sid) = totalResponses (surveys st sid)"
    and "\<not> exists_s (surveys st sid) \<Longrightarrow>
           totalResponses (surveys st1 sid) = totalResponses (surveys st sid) \<or>
           plain (totalResponses (surveys st1 sid)) = 0"
    by blast+
qed

lemma answer_inc_metadata:
  "metadata s' = metadata s \<Longrightarrow> answer_inc s' = answer_inc s"
  by (intro ext) (simp add: answer_inc_def metadata_def)

lemma run_total:
  "plain (totalResponses (surveys (run self deployed ts) sid)) =
     of_nat (length (accepted self deployed ts sid))"
proof (induction ts rule: rev_induct)
  case Nil
  then show ?case by (simp add: run_def deployed_def emptySurvey_def uninitialized_def)
next
  case (snoc t ts)
  let ?st = "run self deployed ts"
  have r: "registered ?st" by (rule run_registered [OF registered_deployed])
  show ?case
  proof (cases "exec self ?st t")
    case (Inl e)
    then have "step self ?st t = ?st" by (simp add: step_def)
    with Inl snoc.IH show ?thesis by (simp add: run_snoc accepted_snoc)
  next
    case (Inr st1)
    then have st1: "step self ?st t = st1" by (simp add: step_def)
    show ?thesis
    proof (cases "exists_s (surveys ?st sid)")
      case True
      from exec_total(1) [OF Inr r True] snoc.IH Inr show ?thesis
        by (simp add: run_snoc accepted_snoc st1)
    next
      case False
      from accepted_not_exists [OF registered_deployed False]
      have a: "accepted self deployed ts sid = []" .
      have b: "answers_to sid t = []"
      proof (rule ccontr)
        assume "answers_to sid t \<noteq> []"
        then obtain xs ps where "tx_call t = SubmitResponse sid xs ps"
          by (auto simp: answers_to_def split: call.splits if_splits)
        with Inr have "submitResponse self (tx_sender t) (tx_timestamp t) ?st sid xs ps = Inr st1"
          by (simp add: exec_def)
        from submitResponse_survey(3) [OF this] False show False by simp
      qed
      from exec_total(3) [OF Inr r False] snoc.IH a b Inr show ?thesis
        by (auto simp: run_snoc accepted_snoc st1)
    qed
  qed
qed

lemma run_counts:
  "plain (aggregatedCounts (surveys (run self deployed ts) sid) q j) =
     sum_list (map (\<lambda>xs. answer_inc (surveys (run self deployed ts) sid) q (xs ! q) j)
                 (accepted self deployed ts sid))"
proof (induction ts rule: rev_induct)
  case Nil
  then show ?case by (simp add: run_def deployed_def emptySurvey_def uninitialized_def)
next
  case (snoc t ts)
  let ?st = "run self deployed ts"
  have r: "registered ?st" by (rule run_registered [OF registered_deployed])
  show ?case
  proof (cases "exec self ?st t")
    case (Inl e)
    then have "step self ?st t = ?st" by (simp add: step_def)
    with Inl snoc.IH show ?thesis by (simp add: run_snoc accepted_snoc)
  next
    case (Inr st1)
    then have st1: "step self ?st t = st1" by (simp add: step_def)
    show ?thesis
    proof (cases "exists_s (surveys ?st sid)")
      case True
      from step_survey(1) [OF r True, of self t]
      have "answer_inc (surveys st1 sid) = answer_inc (surveys ?st sid)"
        unfolding st1 by (rule answer_inc_metadata)
      with exec_counts [OF Inr, of sid q j] snoc.IH Inr show ?thesis
        by (simp add: run_snoc accepted_snoc st1)
    next
      case False
      from accepted_not_exists [OF registered_deployed False]
      have a: "accepted self deployed ts sid = []" .
      have b: "answers_to sid t = []"
      proof (rule ccontr)
        assume "answers_to sid t \<noteq> []"
        then obtain xs ps where "tx_call t = SubmitResponse sid xs ps"
          by (auto simp: answers_to_def split: call.splits if_splits)
        with Inr have "submitResponse self (tx_sender t) (tx_timestamp t) ?st sid xs ps = Inr st1"
          by (simp add: exec_def)
        from submitResponse_survey(3) [OF this] False show False by simp
      qed
      from exec_counts [OF Inr, of sid q j] snoc.IH a b Inr show ?thesis
        by (simp add: run_snoc accepted_snoc st1)
    qed
  qed
qed

lemma sum_list_indicator:
  "sum_list (map (\<lambda>x. if P x then 1 else 0) xs) = (of_nat (length (filter P xs)) :: 32 word)"
  by (induction xs) simp_all

lemma sum_length_filter_eq:
  "(\<Sum>j<N. length (filter (\<lambda>x. g x = j) xs)) = length (filter (\<lambda>x. g x < (N::nat)) xs)"
proof (induction xs)
  case Nil
  then show ?case by simp
next
  case (Cons x xs)
  have "(\<Sum>j<N. length (filter (\<lambda>x. g x = j) (x # xs))) =
        (\<Sum>j<N. (if g x = j then 1 else 0) + length (filter (\<lambda>x. g x = j) xs))"
    by (intro sum.cong) simp_all
  also have "\<dots> = (\<Sum>j<N. if g x = j then 1 else 0) + (\<Sum>j<N. length (filter (\<lambda>x. g x = j) xs))"
    by (simp add: sum.distrib)
  also have "(\<Sum>j<N. if g x = j then 1 else 0) = (if g x \<in> {..<N} then 1 else (0::nat))"
    by (rule sum.delta') simp
  finally show ?case using Cons.IH by simp
qed

lemma created_run: "run 99 deployed [create_tx] = created"
  by (simp add: run_def created_def)

lemma created_exec: "exec 99 deployed create_tx = Inr created"
  by (simp add: created_def step_def exec_def create_tx_def createSurvey_def deployed_def
      FHE_asEuint32_def FHE_allow_def FHE_allowThis_def Let_def)

lemma submit_exec: "\<exists>st'. exec 99 created submit_tx = Inr st'"
  using submit_tx_accepted by (simp add: exec_def submit_tx_def)

lemma answers_to_example:
  "answers_to 0 create_tx = []" "answers_to 0 submit_tx = [[1, 5, 3]]"
  by (simp_all add: answers_to_def create_tx_def submit_tx_def)

lemma accepted_example:
  "accepted 99 deployed [create_tx] 0 = []"
  "accepted 99 deployed [create_tx, submit_tx] 0 = [[1, 5, 3]]"
proof -
  show "accepted 99 deployed [create_tx] 0 = []"
    by (simp add: created_exec answers_to_example)
  from submit_exec obtain st' where "exec 99 created submit_tx = Inr st'" by blast
  then show "accepted 99 deployed [create_tx, submit_tx] 0 = [[1, 5, 3]]"
    by (simp add: created_exec answers_to_example)
qed

lemma created_call:
  "createSurvey 99 7 50 deployed ''T'' ''C'' [''x''] 100 200 [''Q1'', ''Q2'', ''Q3'']
     [SingleChoice, MultipleChoice, Rating] [[''A'', ''B''], [''A'', ''B'', ''C''], [''r'']] =
   Inr (0, created)"
  by (simp add: created_def step_def exec_def create_tx_def createSurvey_def deployed_def
      FHE_asEuint32_def FHE_allow_def FHE_allowThis_def Let_def)

subsection \<open>The total-responses counter\<close>

text \<open>
  C2: the \<open>totalResponses\<close> counter of a survey encrypts zero right after \<open>createSurvey\<close>;
  in every state reached from deployment its plaintext is the number of accepted responses
  to that survey, as a 32-bit value; and a successful transaction on an existing survey adds
  exactly 1 to the plaintext when it is a \<open>submitResponse\<close> for that survey and leaves the
  counter (handle and plaintext) as it is otherwise.
\<close>

theorem C2_total_responses:
  "(createSurvey self a now st ti ca ta s e qt qy qo = Inr (sid', st') \<longrightarrow>
      plain (totalResponses (surveys st' sid')) = 0) \<and>
   plain (totalResponses (surveys (run self deployed ts) sid)) =
     of_nat (length (accepted self deployed ts sid)) \<and>
   (exists_s (surveys (run self deployed ts) sid) \<and>
    exec self (run self deployed ts) t = Inr st1 \<longrightarrow>
      plain (totalResponses (surveys st1 sid)) =
        plain (totalResponses (surveys (run self deployed ts) sid)) +
        (if \<exists>xs ps. tx_call t = SubmitResponse sid xs ps then 1 else 0) \<and>
      ((\<nexists>xs ps. tx_call t = SubmitResponse sid xs ps) \<longrightarrow>
         totalResponses (surveys st1 sid) =
           totalResponses (surveys (run self deployed ts) sid)))"
proof -
  have c: "createSurvey self a now st ti ca ta s e qt qy qo = Inr (sid', st') \<longrightarrow>
      plain (totalResponses (surveys st' sid')) = 0"
    by (auto elim!: createSurvey_Inr)
  have r: "registered (run self deployed ts)"
    by (rule run_registered [OF registered_deployed])
  have l: "length (answers_to sid t) = (if \<exists>xs ps. tx_call t = SubmitResponse sid xs ps then 1 else 0)"
    by (auto simp: answers_to_def split: call.splits)
  have e: "(answers_to sid t = []) = (\<nexists>xs ps. tx_call t = SubmitResponse sid xs ps)"
    by (auto simp: answers_to_def split: call.splits)
  have s: "exists_s (surveys (run self deployed ts) sid) \<and>
    exec self (run self deployed ts) t = Inr st1 \<longrightarrow>
      plain (totalResponses (surveys st1 sid)) =
        plain (totalResponses (surveys (run self deployed ts) sid)) +
        (if \<exists>xs ps. tx_call t = SubmitResponse sid xs ps then 1 else 0) \<and>
      ((\<nexists>xs ps. tx_call t = SubmitResponse sid xs ps) \<longrightarrow>
         totalResponses (surveys st1 sid) =
           totalResponses (surveys (run self deployed ts) sid))"
  proof (intro impI, elim conjE)
    assume ex: "exists_s (surveys (run self deployed ts) sid)"
      and ok: "exec self (run self deployed ts) t = Inr st1"
    from exec_total(1) [OF ok r ex] exec_total(2) [OF ok r ex] l e
    show "plain (totalResponses (surveys st1 sid)) =
        plain (totalResponses (surveys (run self deployed ts) sid)) +
        (if \<exists>xs ps. tx_call t = SubmitResponse sid xs ps then 1 else 0) \<and>
      ((\<nexists>xs ps. tx_call t = SubmitResponse sid xs ps) \<longrightarrow>
         totalResponses (surveys st1 sid) =
           totalResponses (surveys (run self deployed ts) sid))"
      by (simp split: if_splits)
  qed
  from c run_total [of self ts sid] s show ?thesis by blast
qed

theorem C2_total_responses_witness:
  "createSurvey 99 7 50 deployed ''T'' ''C'' [''x''] 100 200 [''Q1'', ''Q2'', ''Q3'']
     [SingleChoice, MultipleChoice, Rating] [[''A'', ''B''], [''A'', ''B'', ''C''], [''r'']] =
   Inr (0, created) \<and>
   plain (totalResponses (surveys created 0)) = 0 \<and>
   plain (totalResponses (surveys (run 99 deployed [create_tx, submit_tx]) 0)) = 1 \<and>
   (\<exists>st1. exec 99 (run 99 deployed [create_tx]) submit_tx = Inr st1 \<and>
      plain (totalResponses (surveys st1 0)) =
        plain (totalResponses (surveys (run 99 deployed [create_tx]) 0)) + 1)"
proof -
  from submit_exec obtain st1 where ok: "exec 99 created submit_tx = Inr st1" by blast
  have sub: "\<exists>xs ps. tx_call submit_tx = SubmitResponse 0 xs ps"
    by (simp add: submit_tx_def)
  note c1 = C2_total_responses [of 99 7 50 deployed "''T''" "''C''" "[''x'']" 100 200
      "[''Q1'', ''Q2'', ''Q3'']" "[SingleChoice, MultipleChoice, Rating]"
      "[[''A'', ''B''], [''A'', ''B'', ''C''], [''r'']]" 0 created "[create_tx]" 0 submit_tx st1,
      unfolded accepted_example created_run]
  note c2 = C2_total_responses [of 99 7 50 deployed "''T''" "''C''" "[''x'']" 100 200
      "[''Q1'', ''Q2'', ''Q3'']" "[SingleChoice, MultipleChoice, Rating]"
      "[[''A'', ''B''], [''A'', ''B'', ''C''], [''r'']]" 0 created "[create_tx, submit_tx]" 0
      submit_tx st1, unfolded accepted_example]
  from c1 created_call have a: "plain (totalResponses (surveys created 0)) = 0" by blast
  from c2 have b: "plain (totalResponses (surveys (run 99 deployed [create_tx, submit_tx]) 0)) = 1"
    by simp
  from c1 ok sub created_survey(1)
  have c: "plain (totalResponses (surveys st1 0)) = plain (totalResponses (surveys created 0)) + 1"
    by simp
  from a b c ok created_call show ?thesis by (simp add: created_run)
qed

subsection \<open>Aggregation by question type\<close>

lemma answered_run: "run 99 deployed [create_tx, submit_tx] = answered"
  by (simp add: run_def answered_def created_def)

lemma answered_call:
  "submitResponse 99 8 150 created 0 [1, 5, 3] [ValidProof, ValidProof, ValidProof] =
     Inr answered"
proof -
  from submit_exec obtain st' where ok: "exec 99 created submit_tx = Inr st'" by blast
  then have "answered = st'" by (simp add: answered_def step_def)
  with ok show ?thesis by (simp add: exec_def submit_tx_def)
qed

lemma answered_survey:
  "exists_s (surveys answered 0)" "questionCount (surveys answered 0) = 3"
  "questions (surveys answered 0) = questions (surveys created 0)"
  using submitResponse_survey(1,2) [OF answered_call]
  by (simp_all add: metadata_def created_survey)

lemma bucket_inc_SingleChoice:
  assumes "qType question = SingleChoice" "j < optionCount question" "optionCount question \<le> 2 ^ 32"
  shows "bucket_inc question a j = (if unat a = j then 1 else 0)"
proof -
  from assms have "j < 2 ^ 32" by simp
  then show ?thesis using assms(1,2) by (simp add: bucket_inc_def word32_of_nat_eq)
qed

lemma bucket_inc_MultipleChoice:
  assumes "qType question = MultipleChoice" "j < optionCount question"
    "optionCount question \<le> 2 ^ 32"
  shows "bucket_inc question a j = (if bit a j then 1 else 0)"
proof -
  from assms have "j < 2 ^ 32" by simp
  from word32_mask_test [OF this, of a] assms(1,2) show ?thesis
    by (simp add: bucket_inc_def)
qed

lemma bucket_inc_Rating:
  assumes "qType question = Rating"
  shows "bucket_inc question a j =
           (if 1 \<le> unat a \<and> unat a \<le> 5 \<and> j = unat a - 1 then 1 else 0)"
proof (cases "j < 5")
  case True
  then have "j + 1 < 2 ^ 32" by simp
  from word32_of_nat_eq [OF this, of a] True assms show ?thesis
    by (auto simp: bucket_inc_def)
next
  case False
  with assms show ?thesis by (auto simp: bucket_inc_def)
qed

text \<open>
  C1: for a SingleChoice question \<open>q\<close> with \<open>N\<close> options of a survey in a state reached from
  deployment, an accepted \<open>submitResponse\<close> whose plaintext answer for \<open>q\<close> is \<open>a\<close> adds 1 to
  the plaintext of \<open>aggregatedCounts[q][o]\<close> when \<open>a = o\<close> and 0 otherwise, for every
  \<open>o < N\<close>; the plaintext of bucket \<open>o\<close> is the number of accepted responses that chose
  \<open>o\<close>, as a 32-bit value; and when every accepted response chose an option below \<open>N\<close> and
  there are fewer than \<open>2^32\<close> of them, decrypting bucket \<open>o\<close> gives exactly that number and
  the \<open>N\<close> buckets sum to the number of accepted responses. The option index is cast to
  \<open>uint32\<close> before the encrypted comparison, hence the bound \<open>N \<le> 2^32\<close>, far above
  any option list a transaction can carry.
\<close>

theorem C1_single_choice:
  assumes "st = run self deployed ts"
    and "q < questionCount (surveys st sid)"
    and "qType (questions (surveys st sid) q) = SingleChoice"
    and "optionCount (questions (surveys st sid) q) = N" and "N \<le> 2 ^ 32"
  shows "(\<forall>j<N. submitResponse self a now st sid xs ps = Inr st1 \<longrightarrow>
            plain (aggregatedCounts (surveys st1 sid) q j) =
            plain (aggregatedCounts (surveys st sid) q j) +
            (if unat (xs ! q) = j then 1 else 0)) \<and>
         (\<forall>j<N. plain (aggregatedCounts (surveys st sid) q j) =
            of_nat (length (filter (\<lambda>xs. unat (xs ! q) = j) (accepted self deployed ts sid)))) \<and>
         ((\<forall>xs \<in> set (accepted self deployed ts sid). unat (xs ! q) < N) \<and>
          length (accepted self deployed ts sid) < 2 ^ 32 \<longrightarrow>
            (\<forall>j<N. unat (plain (aggregatedCounts (surveys st sid) q j)) =
               length (filter (\<lambda>xs. unat (xs ! q) = j) (accepted self deployed ts sid))) \<and>
            (\<Sum>j<N. unat (plain (aggregatedCounts (surveys st sid) q j))) =
              length (accepted self deployed ts sid))"
proof -
  let ?acc = "accepted self deployed ts sid"
  let ?count = "\<lambda>j. length (filter (\<lambda>xs. unat (xs ! q) = j) ?acc)"
  have inc: "answer_inc (surveys st sid) q v j = (if unat v = j then 1 else 0)"
    if "j < N" for j v
    using bucket_inc_SingleChoice [OF assms(3), of j v] that assms(2,4,5)
    by (simp add: answer_inc_def)
  have step: "plain (aggregatedCounts (surveys st1 sid) q j) =
            plain (aggregatedCounts (surveys st sid) q j) + (if unat (xs ! q) = j then 1 else 0)"
    if "j < N" "submitResponse self a now st sid xs ps = Inr st1" for j
    using submitResponse_agg [OF that(2), of q j] inc [OF that(1)] by simp
  have trace: "plain (aggregatedCounts (surveys st sid) q j) = of_nat (?count j)"
    if "j < N" for j
  proof -
    have "plain (aggregatedCounts (surveys st sid) q j) =
          sum_list (map (\<lambda>xs. answer_inc (surveys st sid) q (xs ! q) j) ?acc)"
      unfolding assms(1) by (rule run_counts)
    also have "\<dots> = sum_list (map (\<lambda>xs. if unat (xs ! q) = j then 1 else 0) ?acc)"
      by (simp add: inc [OF that])
    also have "\<dots> = of_nat (?count j)"
      by (rule sum_list_indicator)
    finally show ?thesis .
  qed
  have total: "(\<forall>j<N. unat (plain (aggregatedCounts (surveys st sid) q j)) = ?count j) \<and>
      (\<Sum>j<N. unat (plain (aggregatedCounts (surveys st sid) q j))) = length ?acc"
    if all: "\<forall>xs \<in> set ?acc. unat (xs ! q) < N" and small: "length ?acc < 2 ^ 32"
  proof -
    have u: "unat (plain (aggregatedCounts (surveys st sid) q j)) = ?count j" if "j < N" for j
    proof -
      have "?count j \<le> length ?acc" by (rule length_filter_le)
      then have "?count j < 2 ^ 32" using small by (rule le_less_trans)
      then have "?count j < 2 ^ LENGTH(32)" by simp
      then show ?thesis
        unfolding trace [OF that] by (intro of_nat_inverse [OF refl])
    qed
    have "(\<Sum>j<N. unat (plain (aggregatedCounts (surveys st sid) q j))) = (\<Sum>j<N. ?count j)"
      by (intro sum.cong) (simp_all add: u)
    also have "\<dots> = length (filter (\<lambda>xs. unat (xs ! q) < N) ?acc)"
      by (rule sum_length_filter_eq)
    also have "\<dots> = length ?acc"
      using all by simp
    finally show ?thesis using u by blast
  qed
  from step trace total show ?thesis by blast
qed

theorem C1_single_choice_witness:
  "submitResponse 99 8 150 created 0 [1, 5, 3] [ValidProof, ValidProof, ValidProof] =
     Inr answered \<and>
   plain (aggregatedCounts (surveys answered 0) 0 0) =
     plain (aggregatedCounts (surveys created 0) 0 0) \<and>
   plain (aggregatedCounts (surveys answered 0) 0 1) =
     plain (aggregatedCounts (surveys created 0) 0 1) + 1 \<and>
   unat (plain (aggregatedCounts (surveys answered 0) 0 0)) = 0 \<and>
   unat (plain (aggregatedCounts (surveys answered 0) 0 1)) = 1 \<and>
   (\<Sum>j<2. unat (plain (aggregatedCounts (surveys answered 0) 0 j))) = 1"
proof -
  have q: "0 < questionCount (surveys created 0)"
    "qType (questions (surveys created 0) 0) = SingleChoice"
    "optionCount (questions (surveys created 0) 0) = 2" "(2::nat) \<le> 2 ^ 32"
    by (simp_all add: created_survey created_questions)
  have q': "0 < questionCount (surveys answered 0)"
    "qType (questions (surveys answered 0) 0) = SingleChoice"
    "optionCount (questions (surveys answered 0) 0) = 2"
    by (simp_all add: answered_survey created_questions)
  have h: "(\<forall>xs \<in> set [[1, 5, 3 :: 32 word]]. unat (xs ! 0) < 2) \<and>
           length [[1, 5, 3 :: 32 word]] < 2 ^ 32"
    by simp
  note s = C1_single_choice [OF created_run [symmetric] q, of 8 150 "[1, 5, 3]"
      "[ValidProof, ValidProof, ValidProof]" answered, unfolded accepted_example]
  note t = C1_single_choice [OF answered_run [symmetric] q' q(4), of 8 150 "[1, 5, 3]"
      "[ValidProof, ValidProof, ValidProof]" answered, unfolded accepted_example]
  note a = conjunct1 [OF s, rule_format, OF _ answered_call]
  note b = mp [OF conjunct2 [OF conjunct2 [OF t]] h]
  note c = conjunct1 [OF b, rule_format]
  have a0: "plain (aggregatedCounts (surveys answered 0) 0 0) =
     plain (aggregatedCounts (surveys created 0) 0 0)"
    using a [of 0] by simp
  have a1: "plain (aggregatedCounts (surveys answered 0) 0 1) =
     plain (aggregatedCounts (surveys created 0) 0 1) + 1"
    using a [of 1] by simp
  have c0: "unat (plain (aggregatedCounts (surveys answered 0) 0 0)) = 0"
    using c [of 0] by simp
  have c1: "unat (plain (aggregatedCounts (surveys answered 0) 0 1)) = 1"
    using c [of 1] by simp
  have d: "(\<Sum>j<2. unat (plain (aggregatedCounts (surveys answered 0) 0 j))) = 1"
    using conjunct2 [OF b] by simp
  show ?thesis
    by (intro conjI) (rule answered_call, rule a0, rule a1, rule c0, rule c1, rule d)
qed

text \<open>
  C4 (as stated, refuted): an accepted response to a survey with several questions changes
  the buckets of the other questions too, according to its answers for them. Here question 1
  is MultipleChoice and the response answers question 0 (SingleChoice) with option 1:
  bucket 1 of question 0 goes from 0 to 1.
\<close>

theorem C4_other_questions_counterexample:
  "qType (questions (surveys created 0) 1) = MultipleChoice \<and>
   \<not> hasResponded created 0 8 \<and>
   submitResponse 99 8 150 created 0 [1, 5, 3] [ValidProof, ValidProof, ValidProof] =
     Inr answered \<and>
   hasResponded answered 0 8 \<and>
   plain (aggregatedCounts (surveys created 0) 0 1) = 0 \<and>
   plain (aggregatedCounts (surveys answered 0) 0 1) = 1"
proof -
  have "answer_inc (surveys created 0) 0 ([1, 5, 3] ! 0) 1 = 1"
    by (simp add: answer_inc_def bucket_inc_def created_survey created_questions)
  with submitResponse_agg [OF answered_call, of 0 1] submitResponse_response(1) [OF answered_call]
  show ?thesis
    by (simp add: hasResponded_def created_state created_questions answered_call
        uninitialized_def)
qed

text \<open>
  C4 (amended): for a MultipleChoice question \<open>q\<close> with \<open>N \<le> 2^32\<close> options and an accepted
  \<open>submitResponse\<close> whose plaintext answer for \<open>q\<close> is the bitmask \<open>m\<close>, the plaintext of
  \<open>aggregatedCounts[q][o]\<close> increases by 1 when bit \<open>o\<close> of \<open>m\<close> is set and by 0 otherwise,
  for every \<open>o < N\<close>; the buckets of \<open>q\<close> from index \<open>N\<close> on keep their handle; the buckets
  of every other question \<open>q'\<close> change by the increment that the answer for \<open>q'\<close> prescribes
  (\<open>answer_inc\<close>), independently of \<open>m\<close>; other surveys are unchanged.
\<close>

theorem C4_multiple_choice:
  assumes "submitResponse self a now st sid xs ps = Inr st'"
    and "q < questionCount (surveys st sid)"
    and "qType (questions (surveys st sid) q) = MultipleChoice"
    and "optionCount (questions (surveys st sid) q) = N" and "N \<le> 2 ^ 32"
  shows "(\<forall>j<N. plain (aggregatedCounts (surveys st' sid) q j) =
                plain (aggregatedCounts (surveys st sid) q j) +
                (if bit (xs ! q) j then 1 else 0)) \<and>
         (\<forall>j\<ge>N. aggregatedCounts (surveys st' sid) q j =
                 aggregatedCounts (surveys st sid) q j) \<and>
         (\<forall>q' j. q' \<noteq> q \<longrightarrow>
            plain (aggregatedCounts (surveys st' sid) q' j) =
            plain (aggregatedCounts (surveys st sid) q' j) +
            answer_inc (surveys st sid) q' (xs ! q') j) \<and>
         (\<forall>sid'. sid' \<noteq> sid \<longrightarrow> surveys st' sid' = surveys st sid')"
proof -
  have "plain (aggregatedCounts (surveys st' sid) q j) =
          plain (aggregatedCounts (surveys st sid) q j) + (if bit (xs ! q) j then 1 else 0)"
    if "j < N" for j
    using submitResponse_agg [OF assms(1), of q j] assms(2)
      bucket_inc_MultipleChoice [OF assms(3), of j "xs ! q"] that assms(4,5)
    by (simp add: answer_inc_def)
  moreover have "aggregatedCounts (surveys st' sid) q j = aggregatedCounts (surveys st sid) q j"
    if "N \<le> j" for j
    using that assms(3,4) by (intro submitResponse_same [OF assms(1)]) (simp add: bucketCount_def)
  moreover note submitResponse_agg [OF assms(1)] submitResponse_survey(6) [OF assms(1)]
  ultimately show ?thesis by blast
qed

theorem C4_multiple_choice_witness:
  "submitResponse 99 8 150 created 0 [1, 5, 3] [ValidProof, ValidProof, ValidProof] =
     Inr answered \<and>
   map (\<lambda>j. plain (aggregatedCounts (surveys answered 0) 1 j)) [0, 1, 2] = [1, 0, 1] \<and>
   aggregatedCounts (surveys answered 0) 1 3 = aggregatedCounts (surveys created 0) 1 3 \<and>
   plain (aggregatedCounts (surveys answered 0) 0 1) =
     plain (aggregatedCounts (surveys created 0) 0 1) +
     answer_inc (surveys created 0) 0 ([1, 5, 3] ! 0) 1 \<and>
   surveys answered 1 = surveys created 1"
proof -
  have q: "1 < questionCount (surveys created 0)"
    "qType (questions (surveys created 0) 1) = MultipleChoice"
    "optionCount (questions (surveys created 0) 1) = 3" "(3::nat) \<le> 2 ^ 32"
    by (simp_all add: created_survey created_questions)
  have b: "bit (5 :: 32 word) 0" "\<not> bit (5 :: 32 word) 1" "bit (5 :: 32 word) 2"
    by (simp_all add: bit_numeral_Bit1_Suc_iff bit_numeral_Bit0_Suc_iff numeral_2_eq_2)
  from C4_multiple_choice [OF answered_call q] answered_call b show ?thesis
    by (simp add: created_state uninitialized_def)
qed

text \<open>
  C5: for a Rating question \<open>q\<close> and an accepted \<open>submitResponse\<close> whose plaintext answer for
  \<open>q\<close> is \<open>v\<close>: when \<open>v\<close> is in [1,5] the plaintext of bucket \<open>v - 1\<close> increases by 1 and
  that of every other bucket is unchanged; when \<open>v\<close> is outside [1,5] no bucket plaintext of
  \<open>q\<close> changes. Only the buckets 0..4 are rewritten, whatever the stored option list: the
  buckets from index 5 on keep their handle.
\<close>

theorem C5_rating:
  assumes "submitResponse self a now st sid xs ps = Inr st'"
    and "q < questionCount (surveys st sid)"
    and "qType (questions (surveys st sid) q) = Rating"
  shows "(\<forall>j. plain (aggregatedCounts (surveys st' sid) q j) =
              plain (aggregatedCounts (surveys st sid) q j) +
              (if 1 \<le> unat (xs ! q) \<and> unat (xs ! q) \<le> 5 \<and> j = unat (xs ! q) - 1
               then 1 else 0)) \<and>
         (\<forall>j\<ge>5. aggregatedCounts (surveys st' sid) q j =
                 aggregatedCounts (surveys st sid) q j)"
proof -
  have "plain (aggregatedCounts (surveys st' sid) q j) =
              plain (aggregatedCounts (surveys st sid) q j) +
              (if 1 \<le> unat (xs ! q) \<and> unat (xs ! q) \<le> 5 \<and> j = unat (xs ! q) - 1
               then 1 else 0)" for j
    using submitResponse_agg [OF assms(1), of q j] assms(2)
    by (simp only: answer_inc_def if_True bucket_inc_Rating [OF assms(3)])
  moreover have "aggregatedCounts (surveys st' sid) q j = aggregatedCounts (surveys st sid) q j"
    if "5 \<le> j" for j
    using that assms(3) by (intro submitResponse_same [OF assms(1)]) (simp add: bucketCount_def)
  ultimately show ?thesis by blast
qed

theorem C5_rating_witness:
  "submitResponse 99 8 150 created 0 [1, 5, 3] [ValidProof, ValidProof, ValidProof] =
     Inr answered \<and>
   plain (aggregatedCounts (surveys answered 0) 2 2) = 1 \<and>
   plain (aggregatedCounts (surveys answered 0) 2 1) = 0 \<and>
   aggregatedCounts (surveys answered 0) 2 7 = aggregatedCounts (surveys created 0) 2 7"
proof -
  have q: "2 < questionCount (surveys created 0)"
    "qType (questions (surveys created 0) 2) = Rating"
    by (simp_all add: created_survey created_questions)
  from C5_rating [OF answered_call q] answered_call show ?thesis
    by (simp add: created_state uninitialized_def)
qed

subsection \<open>Freshness of handles\<close>

lemma grows_refl: "grows s s"
  unfolding grows_def
  by (auto intro: exI [of _ "aggregatedCounts (fst s)"])

lemma grows_trans:
  assumes "grows s s'" and "grows s' s''"
  shows "grows s s''"
proof -
  from assms obtain A A' where
    a: "fst s' = (fst s)\<lparr>aggregatedCounts := A\<rparr>" "fst s'' = (fst s')\<lparr>aggregatedCounts := A'\<rparr>"
    unfolding grows_def by blast
  have f: "\<exists>A. fst s'' = (fst s)\<lparr>aggregatedCounts := A\<rparr>"
    unfolding a by (rule exI [of _ A']) simp
  have l: "allocated (snd s) \<le> allocated (snd s')" "allocated (snd s') \<le> allocated (snd s'')"
    using assms unfolding grows_def by blast+
  have g: "(h, a) \<in> set (acl (snd s)) \<or> (allocated (snd s) < h \<and> h \<le> allocated (snd s''))"
    if "(h, a) \<in> set (acl (snd s''))" for h a
  proof -
    from that assms(2) have "(h, a) \<in> set (acl (snd s')) \<or>
        (allocated (snd s') < h \<and> h \<le> allocated (snd s''))"
      unfolding grows_def by blast
    moreover have "(h, a) \<in> set (acl (snd s)) \<or> (allocated (snd s) < h \<and> h \<le> allocated (snd s'))"
      if "(h, a) \<in> set (acl (snd s'))"
      using that assms(1) unfolding grows_def by blast
    ultimately show ?thesis using l by auto
  qed
  have c: "aggregatedCounts (fst s'') q j = aggregatedCounts (fst s) q j \<or>
        (allocated (snd s) < handle (aggregatedCounts (fst s'') q j) \<and>
         handle (aggregatedCounts (fst s'') q j) \<le> allocated (snd s''))" for q j
  proof -
    from assms(2) have "aggregatedCounts (fst s'') q j = aggregatedCounts (fst s') q j \<or>
        (allocated (snd s') < handle (aggregatedCounts (fst s'') q j) \<and>
         handle (aggregatedCounts (fst s'') q j) \<le> allocated (snd s''))"
      unfolding grows_def by blast
    moreover from assms(1) have "aggregatedCounts (fst s') q j = aggregatedCounts (fst s) q j \<or>
        (allocated (snd s) < handle (aggregatedCounts (fst s') q j) \<and>
         handle (aggregatedCounts (fst s') q j) \<le> allocated (snd s'))"
      unfolding grows_def by blast
    ultimately show ?thesis using l by auto
  qed
  have s: "set (acl (snd s)) \<subseteq> set (acl (snd s''))"
    using assms unfolding grows_def by blast
  from f l g c s show ?thesis unfolding grows_def by auto
qed

lemma bump_grows: "0 < k \<Longrightarrow> grows s (bump self k q b v s)"
  unfolding grows_def bump_def
  by (cases s) (auto intro: exI)

lemma fold_grows:
  "(\<And>x s. grows s (g x s)) \<Longrightarrow> grows s (fold g xs s)"
proof (induction xs arbitrary: s)
  case Nil
  then show ?case by (simp add: grows_refl)
next
  case (Cons x xs)
  have "grows s (g x s)" by (rule Cons.prems)
  moreover have "grows (g x s) (fold g xs (g x s))" by (rule Cons.IH) (rule Cons.prems)
  ultimately show ?case by (simp add: grows_trans)
qed

lemma aggregateAnswer_grows: "grows s (aggregateAnswer self ans q s)"
proof (cases s)
  case (Pair survey f)
  show ?thesis
    unfolding Pair
    by (cases "qType (questions survey q)")
       (simp_all add: aggregateAnswer_def Let_def singleChoiceStep_bump multipleChoiceStep_bump
          ratingStep_bump fold_grows bump_grows)
qed

lemma import_grows:
  "grows (survey, f)
     (survey, FHE_allowThis self \<lparr>handle = Suc (allocated f), plain = x\<rparr>
                (f\<lparr>allocated := Suc (allocated f)\<rparr>))"
  unfolding grows_def
  by (auto simp: FHE_defs intro: exI [of _ "aggregatedCounts survey"])

lemma processAnswers_grows:
  "processAnswers self xs ps qs (survey, response, f) = Inr (survey', response', f') \<Longrightarrow>
   grows (survey, f) (survey', f')"
proof (induction qs arbitrary: survey response f)
  case Nil
  then show ?case by (simp add: grows_refl)
next
  case (Cons q0 qs)
  let ?ans = "\<lparr>handle = Suc (allocated f), plain = xs ! q0\<rparr>"
  let ?f2 = "FHE_allowThis self ?ans (f\<lparr>allocated := Suc (allocated f)\<rparr>)"
  from Cons.prems obtain survey1 f3 where
    agg: "aggregateAnswer self ?ans q0 (survey, ?f2) = (survey1, f3)"
    and rest: "processAnswers self xs ps qs
           (survey1,
            response\<lparr>encryptedAnswers := (encryptedAnswers response)(q0 := ?ans)\<rparr>, f3) =
           Inr (survey', response', f')"
    by (rule processAnswers_Cons_Inr)
  have "grows (survey, f) (survey, ?f2)" by (rule import_grows)
  moreover have "grows (survey, ?f2) (survey1, f3)"
    using aggregateAnswer_grows [of "(survey, ?f2)" self ?ans q0] by (simp add: agg)
  moreover have "grows (survey1, f3) (survey', f')" by (rule Cons.IH [OF rest])
  ultimately show ?case by (blast intro: grows_trans)
qed

lemma processAnswers_fresh_aux:
  "processAnswers self xs ps qs (survey, response, f) = Inr (survey', response', f') \<Longrightarrow>
   distinct qs \<Longrightarrow> q \<in> set qs \<Longrightarrow>
   allocated f < handle (encryptedAnswers response' q) \<and>
   handle (encryptedAnswers response' q) \<le> allocated f' \<and>
   (handle (encryptedAnswers response' q), self) \<in> set (acl f') \<and>
   (\<forall>a. (handle (encryptedAnswers response' q), a) \<in> set (acl f') \<longrightarrow>
      a = self \<or> (handle (encryptedAnswers response' q), a) \<in> set (acl f)) \<and>
   (\<forall>q' j. handle (aggregatedCounts survey' q' j) = handle (encryptedAnswers response' q) \<longrightarrow>
      aggregatedCounts survey' q' j = aggregatedCounts survey q' j)"
proof (induction qs arbitrary: survey response f)
  case Nil
  then show ?case by simp
next
  case (Cons q0 qs)
  let ?hnew = "Suc (allocated f)"
  let ?ans = "\<lparr>handle = ?hnew, plain = xs ! q0\<rparr>"
  let ?f2 = "FHE_allowThis self ?ans (f\<lparr>allocated := Suc (allocated f)\<rparr>)"
  let ?r1 = "response\<lparr>encryptedAnswers := (encryptedAnswers response)(q0 := ?ans)\<rparr>"
  from Cons.prems(1) obtain survey1 f3 where
    agg: "aggregateAnswer self ?ans q0 (survey, ?f2) = (survey1, f3)"
    and rest: "processAnswers self xs ps qs (survey1, ?r1, f3) = Inr (survey', response', f')"
    by (rule processAnswers_Cons_Inr)
  from Cons.prems(2) have d: "distinct qs" and q0: "q0 \<notin> set qs" by auto
  have f2: "allocated ?f2 = ?hnew" "acl ?f2 = acl f @ [(?hnew, self)]"
    by (simp_all add: FHE_defs)
  have g12: "grows (survey, ?f2) (survey1, f3)"
    using aggregateAnswer_grows [of "(survey, ?f2)" self ?ans q0] by (simp add: agg)
  have g23: "grows (survey1, f3) (survey', f')" by (rule processAnswers_grows [OF rest])
  have g13: "grows (survey, ?f2) (survey', f')" by (rule grows_trans [OF g12 g23])
  from g12 have a12: "?hnew \<le> allocated f3" by (simp add: grows_def f2)
  from g23 have a23: "allocated f3 \<le> allocated f'" by (simp add: grows_def)
  show ?case
  proof (cases "q = q0")
    case True
    from processAnswers_untouched [OF rest q0]
    have e: "encryptedAnswers response' q = ?ans" by (simp add: True)
    have h: "handle (encryptedAnswers response' q) = ?hnew" by (simp add: e)
    have 1: "allocated f < ?hnew" by simp
    have 2: "?hnew \<le> allocated f'" using a12 a23 by simp
    have 3: "(?hnew, self) \<in> set (acl f')"
      using g13 by (auto simp: grows_def f2)
    have 4: "a = self \<or> (?hnew, a) \<in> set (acl f)" if "(?hnew, a) \<in> set (acl f')" for a
    proof -
      from g13 that have "(?hnew, a) \<in> set (acl ?f2) \<or> allocated ?f2 < ?hnew"
        unfolding grows_def by auto
      then show ?thesis by (auto simp: f2)
    qed
    have 5: "aggregatedCounts survey' q' j = aggregatedCounts survey q' j"
      if "handle (aggregatedCounts survey' q' j) = ?hnew" for q' j
    proof -
      from g13 have "aggregatedCounts survey' q' j = aggregatedCounts survey q' j \<or>
          allocated ?f2 < handle (aggregatedCounts survey' q' j)"
        unfolding grows_def by auto
      with that show ?thesis by (simp add: f2)
    qed
    from 1 2 3 4 5 show ?thesis unfolding h by blast
  next
    case False
    with Cons.prems(3) have qin: "q \<in> set qs" by simp
    let ?hq = "handle (encryptedAnswers response' q)"
    from Cons.IH [OF rest d qin]
    have ih: "allocated f3 < ?hq" "?hq \<le> allocated f'" "(?hq, self) \<in> set (acl f')"
      "\<And>a. (?hq, a) \<in> set (acl f') \<Longrightarrow> a = self \<or> (?hq, a) \<in> set (acl f3)"
      "\<And>q' j. handle (aggregatedCounts survey' q' j) = ?hq \<Longrightarrow>
          aggregatedCounts survey' q' j = aggregatedCounts survey1 q' j"
      by blast+
    have 1: "allocated f < ?hq" using ih(1) a12 by simp
    have 4: "a = self \<or> (?hq, a) \<in> set (acl f)" if "(?hq, a) \<in> set (acl f')" for a
    proof -
      from ih(4) [OF that] have "a = self \<or> (?hq, a) \<in> set (acl f3)" .
      moreover have "(?hq, a) \<in> set (acl f)" if "(?hq, a) \<in> set (acl f3)"
      proof -
        from g12 that have "(?hq, a) \<in> set (acl ?f2) \<or> ?hq \<le> allocated f3"
          unfolding grows_def by auto
        with ih(1) have "(?hq, a) \<in> set (acl ?f2)" by auto
        moreover have "?hq \<noteq> ?hnew" using ih(1) a12 by linarith
        ultimately show ?thesis by (auto simp: f2)
      qed
      ultimately show ?thesis by blast
    qed
    have 5: "aggregatedCounts survey' q' j = aggregatedCounts survey q' j"
      if "handle (aggregatedCounts survey' q' j) = ?hq" for q' j
    proof -
      from ih(5) [OF that] have e: "aggregatedCounts survey' q' j = aggregatedCounts survey1 q' j" .
      from g12 have "aggregatedCounts survey1 q' j = aggregatedCounts survey q' j \<or>
          handle (aggregatedCounts survey1 q' j) \<le> allocated f3"
        unfolding grows_def by auto
      with e that ih(1) show ?thesis by auto
    qed
    from 1 ih(2,3) 4 5 show ?thesis by blast
  qed
qed

subsection \<open>Stored answers stay sealed\<close>

lemma sealed_deployed: "sealed self deployed"
  by (simp add: sealed_def registered_deployed answer_handles_def)
     (simp add: deployed_def emptySurvey_def emptyResponse_def uninitialized_def)

lemma sealed_frame:
  assumes s: "sealed self st"
    and sv: "\<And>sid. exists_s (surveys st' sid) = exists_s (surveys st sid) \<and>
            questionCount (surveys st' sid) = questionCount (surveys st sid) \<and>
            aggregatedCounts (surveys st' sid) = aggregatedCounts (surveys st sid) \<and>
            totalResponses (surveys st' sid) = totalResponses (surveys st sid)"
    and r: "responses st' = responses st"
    and c: "surveyCounter st' = surveyCounter st"
    and al: "allocated (fhe st') = allocated (fhe st)"
    and sub: "set (acl (fhe st)) \<subseteq> set (acl (fhe st'))"
    and new: "\<And>h a. (h, a) \<in> set (acl (fhe st')) \<Longrightarrow>
            (h, a) \<in> set (acl (fhe st)) \<or>
            (\<exists>sid. h = handle (totalResponses (surveys st sid))) \<or>
            (\<exists>sid q j. h = handle (aggregatedCounts (surveys st sid) q j))"
  shows "sealed self st'"
proof -
  have ah: "answer_handles st' = answer_handles st"
    by (simp add: answer_handles_def r sv)
  have 1: "registered st'"
    using s by (simp add: sealed_def registered_def sv c)
  have 2: "\<forall>sid a. exists_r (responses st' sid a) \<longrightarrow> exists_s (surveys st' sid)"
    using s by (simp add: sealed_def sv r)
  have 3: "\<forall>h a. (h, a) \<in> set (acl (fhe st')) \<longrightarrow> h \<le> allocated (fhe st')"
  proof (intro allI impI)
    fix h a assume "(h, a) \<in> set (acl (fhe st'))"
    from new [OF this] s show "h \<le> allocated (fhe st')"
      unfolding sealed_def al by blast
  qed
  have 4: "\<forall>sid q j. handle (aggregatedCounts (surveys st' sid) q j) \<le> allocated (fhe st') \<and>
        handle (aggregatedCounts (surveys st' sid) q j) \<notin> answer_handles st'"
    using s by (simp add: sealed_def sv al ah)
  have 5: "\<forall>sid. handle (totalResponses (surveys st' sid)) \<le> allocated (fhe st') \<and>
        handle (totalResponses (surveys st' sid)) \<notin> answer_handles st'"
    using s by (simp add: sealed_def sv al ah)
  have 6: "\<forall>h \<in> answer_handles st'.
        h \<le> allocated (fhe st') \<and> (h, self) \<in> set (acl (fhe st')) \<and>
        (\<forall>a. (h, a) \<in> set (acl (fhe st')) \<longrightarrow> a = self)"
  proof (intro ballI conjI allI impI)
    fix h assume h: "h \<in> answer_handles st'"
    then have h': "h \<in> answer_handles st" by (simp add: ah)
    from h' s show "h \<le> allocated (fhe st')" by (simp add: sealed_def al)
    from h' s sub show "(h, self) \<in> set (acl (fhe st'))" unfolding sealed_def by blast
    fix a assume "(h, a) \<in> set (acl (fhe st'))"
    from new [OF this] h' s show "a = self" unfolding sealed_def by blast
  qed
  from 1 2 3 4 5 6 show ?thesis unfolding sealed_def by blast
qed

lemma grantPermission_sealed:
  assumes "sealed self st" and "grantPermission sender st sid viewer v e m = Inr st'"
  shows "sealed self st'"
  using assms(2)
  by (intro sealed_frame [OF assms(1)])
     (auto simp: grantPermission_def Let_def FHE_defs split: if_splits)

lemma revokePermission_sealed:
  assumes "sealed self st" and "revokePermission sender st sid viewer = Inr st'"
  shows "sealed self st'"
  using assms(2)
  by (intro sealed_frame [OF assms(1)])
     (auto simp: revokePermission_def Let_def split: if_splits)

lemma setSurveyStatus_sealed:
  assumes "sealed self st" and "setSurveyStatus sender st sid b = Inr st'"
  shows "sealed self st'"
  using assms(2)
  by (intro sealed_frame [OF assms(1)])
     (auto simp: setSurveyStatus_def Let_def split: if_splits)

lemma authorizeMyDecryption_sealed:
  assumes "sealed self st" and "authorizeMyDecryption sender st sid = Inr st'"
  shows "sealed self st'"
  using assms(2)
  by (intro sealed_frame [OF assms(1)])
     (auto simp: authorizeMyDecryption_def Let_def FHE_defs split: if_splits)

lemma fold_allow_allocated:
  "allocated (fold (\<lambda>x. FHE_allow (g x) a) xs f) = allocated f"
  by (induction xs arbitrary: f) (simp_all add: FHE_allow_def)

lemma fold_allowQuestionCounts_allocated:
  "allocated (fold (allowQuestionCounts a survey) qs f) = allocated f"
  by (induction qs arbitrary: f)
     (simp_all add: allowQuestionCounts_def Let_def fold_allow_allocated)

lemma authorizeAllResultsDecryption_sealed:
  assumes "sealed self st" and "authorizeAllResultsDecryption sender st sid = Inr st'"
  shows "sealed self st'"
proof -
  let ?s = "surveys st sid"
  from assms(2) have st': "st' = st\<lparr>fhe := fold (allowQuestionCounts sender ?s)
        [0..<questionCount ?s] (FHE_allow (totalResponses ?s) sender (fhe st))\<rparr>"
    by (auto simp: authorizeAllResultsDecryption_def Let_def split: if_splits)
  show ?thesis
  proof (rule sealed_frame [OF assms(1)])
    show "allocated (fhe st') = allocated (fhe st)"
      by (simp add: st' fold_allowQuestionCounts_allocated FHE_allow_def)
    show "set (acl (fhe st)) \<subseteq> set (acl (fhe st'))"
      by (auto simp: st' fold_allowQuestionCounts_acl FHE_allow_def)
    show "(h, a) \<in> set (acl (fhe st)) \<or>
            (\<exists>sid. h = handle (totalResponses (surveys st sid))) \<or>
            (\<exists>sid q j. h = handle (aggregatedCounts (surveys st sid) q j))"
      if "(h, a) \<in> set (acl (fhe st'))" for h a
      using that by (auto simp: st' fold_allowQuestionCounts_acl FHE_allow_def)
  qed (simp_all add: st')
qed

lemma createSurvey_sealed:
  assumes s: "sealed self st"
    and c: "createSurvey self a now st ti ca ta b e qt qy qo = Inr (sid, st')"
  shows "sealed self st'"
proof -
  let ?hn = "Suc (allocated (fhe st))"
  from c have sid: "sid = surveyCounter st"
    and other: "\<And>sid'. sid' \<noteq> sid \<Longrightarrow> surveys st' sid' = surveys st sid'"
    and agg: "aggregatedCounts (surveys st' sid) = aggregatedCounts (surveys st sid)"
    and tot: "totalResponses (surveys st' sid) = \<lparr>handle = ?hn, plain = 0\<rparr>"
    and ex: "exists_s (surveys st' sid)"
    and r: "responses st' = responses st"
    and cnt: "surveyCounter st' = Suc (surveyCounter st)"
    and al: "allocated (fhe st') = ?hn"
    and acl': "acl (fhe st') = acl (fhe st) @ [(?hn, self), (?hn, a)]"
    by (auto elim!: createSurvey_Inr)
  from s have nex: "\<not> exists_s (surveys st sid)"
    by (auto simp: sealed_def registered_def sid)
  with s have nor: "\<And>a'. \<not> exists_r (responses st sid a')"
    by (auto simp: sealed_def)
  have ah: "answer_handles st' = answer_handles st"
  proof -
    have "exists_r (responses st sid' a') \<and> q < questionCount (surveys st' sid') \<longleftrightarrow>
          exists_r (responses st sid' a') \<and> q < questionCount (surveys st sid')" for sid' a' q
      using nor other by (cases "sid' = sid") auto
    then show ?thesis by (simp add: answer_handles_def r)
  qed
  have old: "\<And>h. h \<in> answer_handles st \<Longrightarrow> h \<le> allocated (fhe st)"
    using s by (simp add: sealed_def)
  have 1: "registered st'"
    using s other ex unfolding sealed_def registered_def cnt sid
    by (metis less_Suc_eq)
  have 2: "\<forall>sid' a'. exists_r (responses st' sid' a') \<longrightarrow> exists_s (surveys st' sid')"
    using s other ex unfolding sealed_def r by metis
  have 3: "\<forall>h a'. (h, a') \<in> set (acl (fhe st')) \<longrightarrow> h \<le> allocated (fhe st')"
    using s unfolding sealed_def al acl' by auto
  have 4: "\<forall>sid' q j. handle (aggregatedCounts (surveys st' sid') q j) \<le> allocated (fhe st') \<and>
        handle (aggregatedCounts (surveys st' sid') q j) \<notin> answer_handles st'"
  proof (intro allI)
    fix sid' q j
    have "aggregatedCounts (surveys st' sid') = aggregatedCounts (surveys st sid')"
      using other agg by (cases "sid' = sid") auto
    with s show "handle (aggregatedCounts (surveys st' sid') q j) \<le> allocated (fhe st') \<and>
        handle (aggregatedCounts (surveys st' sid') q j) \<notin> answer_handles st'"
      unfolding sealed_def al ah by (simp add: le_SucI)
  qed
  have 5: "\<forall>sid'. handle (totalResponses (surveys st' sid')) \<le> allocated (fhe st') \<and>
        handle (totalResponses (surveys st' sid')) \<notin> answer_handles st'"
  proof (intro allI)
    fix sid'
    show "handle (totalResponses (surveys st' sid')) \<le> allocated (fhe st') \<and>
        handle (totalResponses (surveys st' sid')) \<notin> answer_handles st'"
    proof (cases "sid' = sid")
      case True
      have "?hn \<notin> answer_handles st" using old [of ?hn] by auto
      then show ?thesis by (simp add: True tot al ah)
    next
      case False
      with s other show ?thesis unfolding sealed_def al ah by (simp add: le_SucI)
    qed
  qed
  have 6: "\<forall>h \<in> answer_handles st'.
        h \<le> allocated (fhe st') \<and> (h, self) \<in> set (acl (fhe st')) \<and>
        (\<forall>a'. (h, a') \<in> set (acl (fhe st')) \<longrightarrow> a' = self)"
  proof (intro ballI)
    fix h assume "h \<in> answer_handles st'"
    then have h: "h \<in> answer_handles st" by (simp add: ah)
    from old [OF h] have "h \<noteq> ?hn" by simp
    with h s show "h \<le> allocated (fhe st') \<and> (h, self) \<in> set (acl (fhe st')) \<and>
        (\<forall>a'. (h, a') \<in> set (acl (fhe st')) \<longrightarrow> a' = self)"
      unfolding sealed_def al acl' by (auto simp: le_SucI)
  qed
  from 1 2 3 4 5 6 show ?thesis unfolding sealed_def by blast
qed

lemma submitResponse_sealed:
  assumes s: "sealed self st"
    and sub: "submitResponse self a now st sid xs ps = Inr st'"
  shows "sealed self st'"
proof -
  let ?n = "questionCount (surveys st sid)"
  let ?f = "fhe st"
  from sub obtain survey1 response1 f1 where
    nex: "\<not> exists_r (responses st sid a)" and
    pa: "processAnswers self xs ps [0..<?n]
       (surveys st sid, (responses st sid a)\<lparr>exists_r := True, submittedAt := now\<rparr>, ?f) =
     Inr (survey1, response1, f1)"
    and st': "st' = st\<lparr>surveys := (surveys st)
             (sid := survey1\<lparr>totalResponses :=
                \<lparr>handle = allocated f1 + 2, plain = plain (totalResponses survey1) + 1\<rparr>\<rparr>),
           responses := (responses st)(sid := (responses st sid)(a := response1)),
           fhe := f1\<lparr>allocated := allocated f1 + 2,
                    acl := acl f1 @ [(allocated f1 + 2, self),
                                     (allocated f1 + 2, creator survey1)]\<rparr>,
           events := events st @ [ResponseSubmitted sid a]\<rparr>"
    by (rule submitResponse_Inr)
  let ?ht = "allocated f1 + 2"
  have al: "allocated (fhe st') = ?ht"
    and acl': "set (acl (fhe st')) = set (acl f1) \<union> {(?ht, self), (?ht, creator survey1)}"
    and agg': "aggregatedCounts (surveys st' sid) = aggregatedCounts survey1"
    and tot': "handle (totalResponses (surveys st' sid)) = ?ht"
    and other: "\<And>sid'. sid' \<noteq> sid \<Longrightarrow> surveys st' sid' = surveys st sid'"
    and resp: "responses st' = (responses st)(sid := (responses st sid)(a := response1))"
    by (auto simp: st')
  from processAnswers_grows [OF pa]
  have g1: "allocated ?f \<le> allocated f1"
    and g2: "set (acl ?f) \<subseteq> set (acl f1)"
    and g3: "\<And>h b. (h, b) \<in> set (acl f1) \<Longrightarrow>
               (h, b) \<in> set (acl ?f) \<or> (allocated ?f < h \<and> h \<le> allocated f1)"
    and g4: "\<And>q j. aggregatedCounts survey1 q j = aggregatedCounts (surveys st sid) q j \<or>
               (allocated ?f < handle (aggregatedCounts survey1 q j) \<and>
                handle (aggregatedCounts survey1 q j) \<le> allocated f1)"
    unfolding grows_def by auto
  have fresh: "allocated ?f < handle (encryptedAnswers response1 q) \<and>
      handle (encryptedAnswers response1 q) \<le> allocated f1 \<and>
      (handle (encryptedAnswers response1 q), self) \<in> set (acl f1) \<and>
      (\<forall>b. (handle (encryptedAnswers response1 q), b) \<in> set (acl f1) \<longrightarrow>
         b = self \<or> (handle (encryptedAnswers response1 q), b) \<in> set (acl ?f)) \<and>
      (\<forall>q' j. handle (aggregatedCounts survey1 q' j) = handle (encryptedAnswers response1 q) \<longrightarrow>
         aggregatedCounts survey1 q' j = aggregatedCounts (surveys st sid) q' j)"
    if "q < ?n" for q
    using that by (intro processAnswers_fresh_aux [OF pa]) simp_all
  from s have o1: "\<And>h b. (h, b) \<in> set (acl ?f) \<Longrightarrow> h \<le> allocated ?f"
    and o2: "\<And>sid' q j. handle (aggregatedCounts (surveys st sid') q j) \<le> allocated ?f"
    and o2': "\<And>sid' q j. handle (aggregatedCounts (surveys st sid') q j) \<notin> answer_handles st"
    and o3: "\<And>sid'. handle (totalResponses (surveys st sid')) \<le> allocated ?f"
    and o3': "\<And>sid'. handle (totalResponses (surveys st sid')) \<notin> answer_handles st"
    and o4: "\<And>h. h \<in> answer_handles st \<Longrightarrow> h \<le> allocated ?f"
    and o5: "\<And>h. h \<in> answer_handles st \<Longrightarrow> (h, self) \<in> set (acl ?f)"
    and o6: "\<And>h b. h \<in> answer_handles st \<Longrightarrow> (h, b) \<in> set (acl ?f) \<Longrightarrow> b = self"
    and o7: "\<And>sid' a'. exists_r (responses st sid' a') \<Longrightarrow> exists_s (surveys st sid')"
    unfolding sealed_def by blast+
  have qc: "questionCount (surveys st' sid') = questionCount (surveys st sid')" for sid'
    using submitResponse_survey(1) [OF sub] other [of sid']
    by (cases "sid' = sid") (simp_all add: metadata_def)
  have split: "h \<in> answer_handles st \<or> (\<exists>q<?n. h = handle (encryptedAnswers response1 q))"
    if "h \<in> answer_handles st'" for h
  proof -
    from that obtain sid' a' q where
      h: "h = handle (encryptedAnswers (responses st' sid' a') q)"
      and e: "exists_r (responses st' sid' a')" and q: "q < questionCount (surveys st sid')"
      unfolding answer_handles_def qc by blast
    show ?thesis
    proof (cases "sid' = sid \<and> a' = a")
      case True
      with h q show ?thesis by (auto simp: resp)
    next
      case False
      then have "responses st' sid' a' = responses st sid' a'" by (auto simp: resp)
      with h e q have "h \<in> answer_handles st" unfolding answer_handles_def by auto
      then show ?thesis ..
    qed
  qed
  have 1: "registered st'"
  proof -
    have "exec self st \<lparr>tx_sender = a, tx_timestamp = now, tx_call = SubmitResponse sid xs ps\<rparr> =
          Inr st'"
      by (simp add: exec_def sub)
    then have "step self st \<lparr>tx_sender = a, tx_timestamp = now,
        tx_call = SubmitResponse sid xs ps\<rparr> = st'"
      by (simp add: step_def)
    moreover from s have "registered st" by (simp add: sealed_def)
    ultimately show ?thesis using step_registered by metis
  qed
  have 2: "\<forall>sid' a'. exists_r (responses st' sid' a') \<longrightarrow> exists_s (surveys st' sid')"
  proof (intro allI impI)
    fix sid' a' assume e: "exists_r (responses st' sid' a')"
    show "exists_s (surveys st' sid')"
    proof (cases "sid' = sid")
      case True
      with submitResponse_survey(2) [OF sub] show ?thesis by simp
    next
      case False
      with e have "exists_r (responses st sid' a')" by (simp add: resp)
      from o7 [OF this] other [OF False] show ?thesis by simp
    qed
  qed
  have 3: "\<forall>h b. (h, b) \<in> set (acl (fhe st')) \<longrightarrow> h \<le> allocated (fhe st')"
  proof (intro allI impI)
    fix h b assume "(h, b) \<in> set (acl (fhe st'))"
    then have "(h, b) \<in> set (acl f1) \<or> h = ?ht" unfolding acl' by auto
    then show "h \<le> allocated (fhe st')"
    proof
      assume "(h, b) \<in> set (acl f1)"
      from g3 [OF this] o1 [of h b] g1 show ?thesis unfolding al by linarith
    next
      assume "h = ?ht" then show ?thesis by (simp add: al)
    qed
  qed
  have 4: "\<forall>sid' q j. handle (aggregatedCounts (surveys st' sid') q j) \<le> allocated (fhe st') \<and>
        handle (aggregatedCounts (surveys st' sid') q j) \<notin> answer_handles st'"
  proof (intro allI)
    fix sid' q j
    let ?c = "aggregatedCounts (surveys st' sid') q j"
    have c: "?c = aggregatedCounts (surveys st sid') q j \<or>
        (allocated ?f < handle ?c \<and> handle ?c \<le> allocated f1 \<and> sid' = sid \<and>
         ?c = aggregatedCounts survey1 q j)"
    proof (cases "sid' = sid")
      case True
      with g4 [of q j] show ?thesis by (auto simp: agg')
    next
      case False
      with other show ?thesis by simp
    qed
    have le: "handle ?c \<le> allocated (fhe st')"
      using c o2 [of sid' q j] g1 unfolding al by auto
    have "handle ?c \<notin> answer_handles st'"
    proof
      assume "handle ?c \<in> answer_handles st'"
      from split [OF this] show False
      proof
        assume old: "handle ?c \<in> answer_handles st"
        from c show False
        proof
          assume "?c = aggregatedCounts (surveys st sid') q j"
          with old o2' [of sid' q j] show False by simp
        next
          assume "allocated ?f < handle ?c \<and> handle ?c \<le> allocated f1 \<and> sid' = sid \<and>
             ?c = aggregatedCounts survey1 q j"
          then have "allocated ?f < handle ?c" by blast
          with o4 [OF old] show False by linarith
        qed
      next
        assume "\<exists>q'<?n. handle ?c = handle (encryptedAnswers response1 q')"
        then obtain q' where q': "q' < ?n"
          and e: "handle ?c = handle (encryptedAnswers response1 q')" by blast
        from fresh [OF q'] have lt: "allocated ?f < handle (encryptedAnswers response1 q')"
          and unchanged: "\<And>q'' j'. handle (aggregatedCounts survey1 q'' j') =
                handle (encryptedAnswers response1 q') \<Longrightarrow>
              aggregatedCounts survey1 q'' j' = aggregatedCounts (surveys st sid) q'' j'"
          by blast+
        from c show False
        proof
          assume "?c = aggregatedCounts (surveys st sid') q j"
          with o2 [of sid' q j] lt e show False by simp
        next
          assume n: "allocated ?f < handle ?c \<and> handle ?c \<le> allocated f1 \<and> sid' = sid \<and>
             ?c = aggregatedCounts survey1 q j"
          then have e2: "allocated ?f < handle ?c"
            and e3: "?c = aggregatedCounts survey1 q j" by blast+
          from e e3 have "handle (aggregatedCounts survey1 q j) =
              handle (encryptedAnswers response1 q')" by simp
          from unchanged [OF this]
          have "handle ?c = handle (aggregatedCounts (surveys st sid) q j)"
            by (simp only: e3)
          with e2 o2 [of sid q j] show False by linarith
        qed
      qed
    qed
    with le show "handle ?c \<le> allocated (fhe st') \<and> handle ?c \<notin> answer_handles st'" ..
  qed
  have 5: "\<forall>sid'. handle (totalResponses (surveys st' sid')) \<le> allocated (fhe st') \<and>
        handle (totalResponses (surveys st' sid')) \<notin> answer_handles st'"
  proof (intro allI)
    fix sid'
    let ?t = "handle (totalResponses (surveys st' sid'))"
    show "?t \<le> allocated (fhe st') \<and> ?t \<notin> answer_handles st'"
    proof (cases "sid' = sid")
      case True
      then have t: "?t = ?ht" by (simp add: tot')
      have "?ht \<notin> answer_handles st'"
      proof
        assume "?ht \<in> answer_handles st'"
        from split [OF this] show False
        proof
          assume "?ht \<in> answer_handles st"
          from o4 [OF this] g1 show False by simp
        next
          assume "\<exists>q<?n. ?ht = handle (encryptedAnswers response1 q)"
          then obtain q where "q < ?n" and e: "?ht = handle (encryptedAnswers response1 q)"
            by blast
          from fresh [OF this(1)] e show False by simp
        qed
      qed
      then show ?thesis by (simp add: t al)
    next
      case False
      then have t: "?t = handle (totalResponses (surveys st sid'))" by (simp add: other)
      have "?t \<notin> answer_handles st'"
      proof
        assume "?t \<in> answer_handles st'"
        from split [OF this] show False
        proof
          assume "?t \<in> answer_handles st"
          with o3' [of sid'] show False by (simp add: t)
        next
          assume "\<exists>q<?n. ?t = handle (encryptedAnswers response1 q)"
          then obtain q where "q < ?n" and e: "?t = handle (encryptedAnswers response1 q)"
            by blast
          from fresh [OF this(1)] e o3 [of sid'] show False by (simp add: t)
        qed
      qed
      with o3 [of sid'] g1 show ?thesis by (simp add: t al)
    qed
  qed
  have 6: "\<forall>h \<in> answer_handles st'.
        h \<le> allocated (fhe st') \<and> (h, self) \<in> set (acl (fhe st')) \<and>
        (\<forall>b. (h, b) \<in> set (acl (fhe st')) \<longrightarrow> b = self)"
  proof (intro ballI)
    fix h assume "h \<in> answer_handles st'"
    from split [OF this]
    show "h \<le> allocated (fhe st') \<and> (h, self) \<in> set (acl (fhe st')) \<and>
        (\<forall>b. (h, b) \<in> set (acl (fhe st')) \<longrightarrow> b = self)"
    proof
      assume old: "h \<in> answer_handles st"
      have a1: "h \<le> allocated (fhe st')" using o4 [OF old] g1 by (simp add: al)
      have a2: "(h, self) \<in> set (acl (fhe st'))" using o5 [OF old] g2 unfolding acl' by auto
      have a3: "b = self" if "(h, b) \<in> set (acl (fhe st'))" for b
      proof -
        from that have "(h, b) \<in> set (acl f1) \<or> h = ?ht" unfolding acl' by auto
        then show ?thesis
        proof
          assume "(h, b) \<in> set (acl f1)"
          from g3 [OF this] o4 [OF old] have "(h, b) \<in> set (acl ?f)" by auto
          from o6 [OF old this] show ?thesis .
        next
          assume "h = ?ht"
          with o4 [OF old] g1 show ?thesis by simp
        qed
      qed
      from a1 a2 a3 show ?thesis by blast
    next
      assume "\<exists>q<?n. h = handle (encryptedAnswers response1 q)"
      then obtain q where q: "q < ?n" and h: "h = handle (encryptedAnswers response1 q)"
        by blast
      from fresh [OF q] have f1: "allocated ?f < h" and f2: "h \<le> allocated f1"
        and f3: "(h, self) \<in> set (acl f1)"
        and f4: "\<And>b. (h, b) \<in> set (acl f1) \<Longrightarrow> b = self \<or> (h, b) \<in> set (acl ?f)"
        unfolding h by blast+
      have a1: "h \<le> allocated (fhe st')" using f2 by (simp add: al)
      have a2: "(h, self) \<in> set (acl (fhe st'))" using f3 unfolding acl' by auto
      have a3: "b = self" if "(h, b) \<in> set (acl (fhe st'))" for b
      proof -
        from that have "(h, b) \<in> set (acl f1) \<or> h = ?ht" unfolding acl' by auto
        then show ?thesis
        proof
          assume "(h, b) \<in> set (acl f1)"
          from f4 [OF this] o1 [of h b] f1 show ?thesis by auto
        next
          assume "h = ?ht"
          with f2 show ?thesis by simp
        qed
      qed
      from a1 a2 a3 show ?thesis by blast
    qed
  qed
  from 1 2 3 4 5 6 show ?thesis unfolding sealed_def by blast
qed

lemma step_sealed:
  assumes "sealed self st"
  shows "sealed self (step self st t)"
proof (cases "exec self st t")
  case (Inl e)
  then show ?thesis using assms by (simp add: step_def)
next
  case (Inr st')
  then have st': "step self st t = st'" by (simp add: step_def)
  show ?thesis
  proof (cases "tx_call t")
    case (CreateSurvey ti ca ta s e qt qy qo)
    with Inr obtain sid where
      "createSurvey self (tx_sender t) (tx_timestamp t) st ti ca ta s e qt qy qo = Inr (sid, st')"
      by (auto simp: exec_def split: sum.splits)
    from createSurvey_sealed [OF assms this] show ?thesis by (simp add: st')
  next
    case (SubmitResponse sid xs ps)
    with Inr have "submitResponse self (tx_sender t) (tx_timestamp t) st sid xs ps = Inr st'"
      by (simp add: exec_def)
    from submitResponse_sealed [OF assms this] show ?thesis by (simp add: st')
  next
    case (GrantPermission sid viewer v e m)
    with Inr have "grantPermission (tx_sender t) st sid viewer v e m = Inr st'"
      by (simp add: exec_def)
    from grantPermission_sealed [OF assms this] show ?thesis by (simp add: st')
  next
    case (RevokePermission sid viewer)
    with Inr have "revokePermission (tx_sender t) st sid viewer = Inr st'"
      by (simp add: exec_def)
    from revokePermission_sealed [OF assms this] show ?thesis by (simp add: st')
  next
    case (SetSurveyStatus sid b)
    with Inr have "setSurveyStatus (tx_sender t) st sid b = Inr st'"
      by (simp add: exec_def)
    from setSurveyStatus_sealed [OF assms this] show ?thesis by (simp add: st')
  next
    case (AuthorizeMyDecryption sid)
    with Inr have "authorizeMyDecryption (tx_sender t) st sid = Inr st'"
      by (simp add: exec_def)
    from authorizeMyDecryption_sealed [OF assms this] show ?thesis by (simp add: st')
  next
    case (AuthorizeAllResultsDecryption sid)
    with Inr have "authorizeAllResultsDecryption (tx_sender t) st sid = Inr st'"
      by (simp add: exec_def)
    from authorizeAllResultsDecryption_sealed [OF assms this] show ?thesis by (simp add: st')
  qed
qed

lemma run_sealed: "sealed self st \<Longrightarrow> sealed self (run self st ts)"
  unfolding run_def by (induction ts arbitrary: st) (simp_all add: step_sealed)

text \<open>
  C10: in every state reached from deployment, a handle that \<open>getResponse\<close> returns (the
  stored answer of an existing response, for a question index below the question count)
  is granted to the contract itself and to no other address; in particular neither the
  respondent who submitted it nor the survey creator can decrypt it, whatever entry points
  have been called.
\<close>

theorem C10_answers_sealed:
  assumes "st = run self deployed ts" and "getResponse st sid user q = Inr c"
  shows "isAllowed (fhe st) (handle c) self \<and>
         (\<forall>a. isAllowed (fhe st) (handle c) a \<longrightarrow> a = self) \<and>
         (user \<noteq> self \<longrightarrow> \<not> isAllowed (fhe st) (handle c) user) \<and>
         (creator (surveys st sid) \<noteq> self \<longrightarrow>
            \<not> isAllowed (fhe st) (handle c) (creator (surveys st sid)))"
proof -
  have s: "sealed self st"
    unfolding assms(1) by (rule run_sealed [OF sealed_deployed])
  from assms(2) have "exists_r (responses st sid user)" "q < questionCount (surveys st sid)"
    "c = encryptedAnswers (responses st sid user) q"
    by (auto simp: getResponse_def Let_def split: if_splits)
  then have "handle c \<in> answer_handles st"
    unfolding answer_handles_def by blast
  with s have "(handle c, self) \<in> set (acl (fhe st))"
    "\<And>a. (handle c, a) \<in> set (acl (fhe st)) \<Longrightarrow> a = self"
    unfolding sealed_def by blast+
  then show ?thesis unfolding isAllowed_def by blast
qed

theorem C10_answers_sealed_witness:
  "\<exists>c. getResponse answered 0 8 1 = Inr c \<and>
     isAllowed (fhe answered) (handle c) 99 \<and>
     \<not> isAllowed (fhe answered) (handle c) 8 \<and>
     \<not> isAllowed (fhe answered) (handle c) 7"
proof -
  have e: "exists_r (responses answered 0 8)"
    by (rule submitResponse_response(1) [OF answered_call])
  then obtain c where c: "getResponse answered 0 8 1 = Inr c"
    by (simp add: getResponse_def Let_def answered_survey)
  have cr: "creator (surveys answered 0) = 7"
    using submitResponse_survey(1) [OF answered_call]
    by (simp add: metadata_def created_survey)
  from C10_answers_sealed [OF answered_run [symmetric] c] c cr show ?thesis
    by auto
qed

subsection \<open>Accessors on a reachable state\<close>

lemma blank_deployed: "blank deployed"
  by (simp add: blank_def deployed_def)

lemma step_blank:
  assumes "blank st"
  shows "blank (step self st t)"
proof (cases "exec self st t")
  case (Inl e)
  then show ?thesis using assms by (simp add: step_def)
next
  case (Inr st')
  then have st': "step self st t = st'" by (simp add: step_def)
  show ?thesis
  proof (cases "tx_call t")
    case (CreateSurvey ti ca ta s e qt qy qo)
    with Inr obtain sid where
      "createSurvey self (tx_sender t) (tx_timestamp t) st ti ca ta s e qt qy qo = Inr (sid, st')"
      by (auto simp: exec_def split: sum.splits)
    then show ?thesis using assms unfolding st'
      by (elim createSurvey_Inr) (auto simp: blank_def)
  next
    case (SubmitResponse sid xs ps)
    with Inr have sub: "submitResponse self (tx_sender t) (tx_timestamp t) st sid xs ps = Inr st'"
      by (simp add: exec_def)
    show ?thesis unfolding st' blank_def
    proof (intro allI impI)
      fix sid'
      assume n: "\<not> exists_s (surveys st' sid')"
      with submitResponse_survey(2) [OF sub] have "sid' \<noteq> sid" by auto
      from submitResponse_survey(6) [OF sub this] n assms
      show "surveys st' sid' = emptySurvey" by (simp add: blank_def)
    qed
  qed (use Inr assms in \<open>auto simp: st' exec_def op_defs blank_def Let_def split: if_splits\<close>)
qed

lemma run_blank: "blank st \<Longrightarrow> blank (run self st ts)"
  unfolding run_def by (induction ts arbitrary: st) (simp_all add: step_blank)

text \<open>
  C6 (amended): \<open>getQuestionInfo\<close> and \<open>getSurveyTags\<close> fail when no survey exists for the
  id, and \<open>getQuestionInfo\<close> also fails when the question index is not below the question
  count; \<open>getSurveyInfo\<close> does not fail for an id without a survey: in every state reached
  from deployment it returns the zero address, empty strings, zero timestamps, a zero
  question count and both flags false.
\<close>

theorem C6_accessors:
  "(\<not> exists_s (surveys st surveyId) \<longrightarrow>
      getQuestionInfo st surveyId questionIndex = Inl (Revert ''Survey does not exist'') \<and>
      getSurveyTags st surveyId = Inl (Revert ''Survey does not exist'')) \<and>
   (exists_s (surveys st surveyId) \<and> \<not> questionIndex < questionCount (surveys st surveyId) \<longrightarrow>
      getQuestionInfo st surveyId questionIndex = Inl (Revert ''Invalid question index'')) \<and>
   (\<not> exists_s (surveys (run self deployed ts) surveyId') \<longrightarrow>
      getSurveyInfo (run self deployed ts) surveyId' =
        Inr (0, [], [], 0, 0, 0, 0, False, False))"
proof -
  have "blank (run self deployed ts)" by (rule run_blank [OF blank_deployed])
  then have "\<not> exists_s (surveys (run self deployed ts) surveyId') \<longrightarrow>
      getSurveyInfo (run self deployed ts) surveyId' =
        Inr (0, [], [], 0, 0, 0, 0, False, False)"
    by (auto simp: blank_def getSurveyInfo_def Let_def emptySurvey_def)
  then show ?thesis
    by (simp add: getQuestionInfo_def getSurveyTags_def Let_def)
qed

lemma created_missing: "\<not> exists_s (surveys created 4)"
  by (simp add: created_def step_def exec_def create_tx_def createSurvey_def deployed_def
      FHE_asEuint32_def FHE_allow_def FHE_allowThis_def Let_def emptySurvey_def)

theorem C6_accessors_witness:
  "\<not> exists_s (surveys created 4) \<and>
   getQuestionInfo created 4 0 = Inl (Revert ''Survey does not exist'') \<and>
   getSurveyTags created 4 = Inl (Revert ''Survey does not exist'') \<and>
   exists_s (surveys created 0) \<and> \<not> 3 < questionCount (surveys created 0) \<and>
   getQuestionInfo created 0 3 = Inl (Revert ''Invalid question index'') \<and>
   \<not> exists_s (surveys (run 99 deployed [create_tx]) 4) \<and>
   getSurveyInfo (run 99 deployed [create_tx]) 4 = Inr (0, [], [], 0, 0, 0, 0, False, False)"
proof -
  have b: "exists_s (surveys created 0) \<and> \<not> 3 < questionCount (surveys created 0)"
    by (simp add: created_survey)
  have c: "\<not> exists_s (surveys (run 99 deployed [create_tx]) 4)"
    by (simp add: created_run created_missing)
  from C6_accessors [of created 4 0 99 "[create_tx]" 4] created_missing c
  have 1: "getQuestionInfo created 4 0 = Inl (Revert ''Survey does not exist'')"
    "getSurveyTags created 4 = Inl (Revert ''Survey does not exist'')"
    "getSurveyInfo (run 99 deployed [create_tx]) 4 = Inr (0, [], [], 0, 0, 0, 0, False, False)"
    by blast+
  from C6_accessors [of created 0 3 99 "[create_tx]" 4] b
  have 2: "getQuestionInfo created 0 3 = Inl (Revert ''Invalid question index'')"
    by blast
  from 1 2 b c created_missing show ?thesis by blast
qed

subsection \<open>Bulk authorisation after a response\<close>

text \<open>After the response of address 8 every bucket of the example survey and its total
  counter hold handles produced by \<open>FHE.add\<close>; these are the handles the creator is granted.\<close>

lemma answered_handles:
  "result_handles answered 0 = [72, 8, 14, 23, 31, 39, 46, 52, 58, 64, 70]"
  by (simp add: result_handles_def getTotalResponses_def getQuestionOptionCounts_def
      answered_def created_def step_def exec_def create_tx_def submit_tx_def
      createSurvey_def submitResponse_def deployed_def emptySurvey_def emptyResponse_def
      emptyPermission_def emptyQuestion_def uninitialized_def aggregateAnswer_def
      singleChoiceStep_def multipleChoiceStep_def ratingStep_def FHE_defs
      FHE_fromExternal_def Let_def upt_conv_Cons)

theorem C7_grants_cover_results_witness:
  "\<exists>st'. authorizeAllResultsDecryption 7 answered 0 = Inr st' \<and>
     result_handles answered 0 = [72, 8, 14, 23, 31, 39, 46, 52, 58, 64, 70] \<and>
     granted_by answered st' =
       [(72, 7), (8, 7), (14, 7), (23, 7), (31, 7), (39, 7), (46, 7), (52, 7), (58, 7),
        (64, 7), (70, 7)] \<and>
     fst ` set (granted_by answered st') = set (result_handles answered 0) \<and>
     getTotalResponses st' 0 = getTotalResponses answered 0 \<and>
     getQuestionOptionCounts st' 0 1 = getQuestionOptionCounts answered 0 1"
proof -
  have cr: "creator (surveys answered 0) = 7"
    using submitResponse_survey(1) [OF answered_call]
    by (simp add: metadata_def created_survey)
  obtain st' where ok: "authorizeAllResultsDecryption 7 answered 0 = Inr st'"
    by (simp add: authorizeAllResultsDecryption_def answered_survey cr Let_def)
  note t = C7_grants_cover_results [OF ok, unfolded answered_handles]
  from t have g: "granted_by answered st' =
       [(72, 7), (8, 7), (14, 7), (23, 7), (31, 7), (39, 7), (46, 7), (52, 7), (58, 7),
        (64, 7), (70, 7)]"
    by simp
  from t have f: "fst ` set (granted_by answered st') =
      set [72, 8, 14, 23, 31, 39, 46, 52, 58, 64, 70]"
    by (rule conjunct1 [OF conjunct2 [OF conjunct2]])
  from t have u: "getTotalResponses st' 0 = getTotalResponses answered 0"
    "getQuestionOptionCounts st' 0 1 = getQuestionOptionCounts answered 0 1"
    by blast+
  from ok g f u show ?thesis by (simp add: answered_handles)
qed

end
